theory Spec2Isabelle
  imports Complex_Main "HOL-Library.While_Combinator" "HOL-Library.Multiset"
begin

section \<open>BHex.js: hexagon coordinates, the grid and its searches\<close>

text \<open>
  The embedding follows \<^verbatim>\<open>BHex.Core.js\<close> and \<^verbatim>\<open>BHex.Drawing.js\<close>.
  A JavaScript number is modelled as an exact rational: \<^verbatim>\<open>NaN\<close>, the infinities and
  the rounding of double arithmetic are outside the model.
\<close>

type_synonym number = rat

subsection \<open>JavaScript values and truthiness\<close>

text \<open>
  The constructor of a hexagon coerces its \<^verbatim>\<open>blocked\<close> argument with \<^verbatim>\<open>!!\<close>, so that
  argument is any JavaScript value. \<open>truthy\<close> is the language's ToBoolean.
\<close>

datatype jsval = Undefined | Null | Boolean bool | Number number | String string | Object

fun truthy :: "jsval \<Rightarrow> bool" where
  "truthy Undefined = False"
| "truthy Null = False"
| "truthy (Boolean b) = b"
| "truthy (Number n) = (n \<noteq> 0)"
| "truthy (String s) = (s \<noteq> [])"
| "truthy Object = True"

subsection \<open>Axial, Cube, Hexagon\<close>

text \<open>
  \<^verbatim>\<open>BHex.Axial = function (x, y) { this.x = x; this.y = y; }\<close>.
  Cube and Hexagon call the Axial constructor on themselves and share its prototype, so
  they are extensions of the axial record and every function on an axial accepts them.
\<close>

record axial =
  axial_x :: number
  axial_y :: number

definition Axial :: "number \<Rightarrow> number \<Rightarrow> axial" where
  "Axial x y = \<lparr>axial_x = x, axial_y = y\<rparr>"

text \<open>
  \<^verbatim>\<open>getKey\<close> returns the string \<^verbatim>\<open>this.x + "x" + this.y\<close>. The decimal rendering of a
  number determines the number, so the key is modelled by the pair of coordinates.
\<close>

definition getKey :: "'a axial_scheme \<Rightarrow> number \<times> number" where
  "getKey a = (axial_x a, axial_y a)"

definition compareTo :: "'a axial_scheme \<Rightarrow> 'b axial_scheme \<Rightarrow> bool" where
  "compareTo a other = (axial_x a = axial_x other \<and> axial_y a = axial_y other)"

record cube = axial +
  cube_z :: number

text \<open>\<^verbatim>\<open>this.z = z || -x-y\<close>: an omitted or zero third argument is replaced.\<close>

definition Cube :: "number \<Rightarrow> number \<Rightarrow> number option \<Rightarrow> cube" where
  "Cube x y z = \<lparr>axial_x = x, axial_y = y,
     cube_z = (case z of Some v \<Rightarrow> if v \<noteq> 0 then v else - x - y | None \<Rightarrow> - x - y)\<rparr>"



record hexagon = axial +
  cost :: number
  blocked :: bool

text \<open>
  \<^verbatim>\<open>this.cost = (cost) ? cost : 1; this.blocked = !!blocked;\<close>
  The cost argument is a number or omitted (\<open>None\<close>).
\<close>

definition Hexagon :: "number \<Rightarrow> number \<Rightarrow> number option \<Rightarrow> jsval \<Rightarrow> hexagon" where
  "Hexagon x y c b = \<lparr>axial_x = x, axial_y = y,
     cost = (case c of Some v \<Rightarrow> if v \<noteq> 0 then v else 1 | None \<Rightarrow> 1),
     blocked = truthy b\<rparr>"

subsection \<open>Rounding a cube (BHex.Drawing.js)\<close>

text \<open>\<^verbatim>\<open>Math.round\<close> rounds to the nearest integer, a half towards plus infinity.\<close>

definition Math_round :: "number \<Rightarrow> number" where
  "Math_round v = of_int \<lfloor>v + 1 / 2\<rfloor>"

definition round_cube :: "cube \<Rightarrow> cube" where
  "round_cube c =
     (let cx = axial_x c; cy = axial_y c; cz = cube_z c;
          rx = Math_round cx; ry = Math_round cy; rz = Math_round cz;
          x_diff = \<bar>rx - cx\<bar>; y_diff = \<bar>ry - cy\<bar>; z_diff = \<bar>rz - cz\<bar>
      in if x_diff > y_diff \<and> x_diff > z_diff
           then \<lparr>axial_x = - ry - rz, axial_y = ry, cube_z = rz\<rparr>
         else if y_diff > z_diff
           then \<lparr>axial_x = rx, axial_y = - rx - rz, cube_z = rz\<rparr>
         else \<lparr>axial_x = rx, axial_y = ry, cube_z = - rx - ry\<rparr>)"

subsection \<open>The grid\<close>

record grid =
  radius :: number
  hexes :: "hexagon list"

text \<open>
  \<^verbatim>\<open>for (var v = lo; v <= hi; v++)\<close>: the values the loop variable takes.
\<close>

function loop_values :: "number \<Rightarrow> number \<Rightarrow> number list" where
  "loop_values v hi = (if v \<le> hi then v # loop_values (v + 1) hi else [])"
  by pat_completeness auto
termination
  by (relation "measure (\<lambda>(v, hi). nat (\<lfloor>hi - v\<rfloor> + 1))") (auto, linarith)

declare loop_values.simps [simp del]

text \<open>
  \<^verbatim>\<open>this.radius = radius || 0\<close>; the three loops run over the argument itself and push
  \<^verbatim>\<open>new BHex.Hexagon(x, y)\<close> (cost and blocked omitted) whenever \<^verbatim>\<open>x + y + z == 0\<close>.
\<close>

definition Grid :: "number \<Rightarrow> grid" where
  "Grid r = \<lparr>radius = (if r \<noteq> 0 then r else 0),
     hexes = concat (map (\<lambda>x. concat (map (\<lambda>y. concat (map (\<lambda>z.
               if x + y + z = 0 then [Hexagon x y None Undefined] else [])
             (loop_values (- r) r))) (loop_values (- r) r))) (loop_values (- r) r))\<rparr>"

text \<open>
  \<^verbatim>\<open>getHexAt\<close>: \<^verbatim>\<open>Array.prototype.some\<close> stops at the first hexagon that compares equal;
  \<open>None\<close> is \<^verbatim>\<open>undefined\<close>.
\<close>

definition getHexAt :: "grid \<Rightarrow> 'a axial_scheme \<Rightarrow> hexagon option" where
  "getHexAt g a = find (\<lambda>h. compareTo h a) (hexes g)"

definition directions :: "'a axial_scheme \<Rightarrow> axial list" where
  "directions a =
     [Axial (axial_x a + 1) (axial_y a), Axial (axial_x a + 1) (axial_y a - 1),
      Axial (axial_x a) (axial_y a - 1), Axial (axial_x a - 1) (axial_y a),
      Axial (axial_x a - 1) (axial_y a + 1), Axial (axial_x a) (axial_y a + 1)]"

definition getNeighbors :: "grid \<Rightarrow> 'a axial_scheme \<Rightarrow> hexagon list" where
  "getNeighbors g a =
     concat (map (\<lambda>d. case getHexAt g d of Some h \<Rightarrow> [h] | None \<Rightarrow> []) (directions a))"

definition getDistance :: "'a axial_scheme \<Rightarrow> 'b axial_scheme \<Rightarrow> number" where
  "getDistance a b =
     (\<bar>axial_x a - axial_x b\<bar> + \<bar>axial_x a + axial_y a - axial_x b - axial_y b\<bar>
        + \<bar>axial_y a - axial_y b\<bar>) / 2"

subsection \<open>The binary heap\<close>

text \<open>
  Modelled from the spec: \<^verbatim>\<open>BinaryHeap.js\<close>, the heap both searches use, belongs to the
  repository but is not among the source files. The spec describes it as a binary
  min-heap in an array: push appends and sifts up; pop swaps the root with the last
  element, removes the last and sifts down from the root; rescoring sifts the item
  towards the root. The score of an element is read through the function given at each
  call, as the elements are mutable nodes.
\<close>

definition swap :: "'a list \<Rightarrow> nat \<Rightarrow> nat \<Rightarrow> 'a list" where
  "swap xs i j = xs[i := xs ! j, j := xs ! i]"

function sift_up :: "('a \<Rightarrow> number) \<Rightarrow> 'a list \<Rightarrow> nat \<Rightarrow> 'a list" where
  "sift_up sc xs i =
     (if i = 0 then xs
      else let p = (i - 1) div 2
           in if sc (xs ! i) < sc (xs ! p) then sift_up sc (swap xs i p) p else xs)"
  by pat_completeness auto
termination
  by (relation "measure (\<lambda>(sc, xs, i). i)") auto

declare sift_up.simps [simp del]

function sift_down :: "('a \<Rightarrow> number) \<Rightarrow> 'a list \<Rightarrow> nat \<Rightarrow> 'a list" where
  "sift_down sc xs i =
     (let l = 2 * i + 1; r = 2 * i + 2;
          m = (if l < length xs \<and> sc (xs ! l) < sc (xs ! i) then l else i);
          k = (if r < length xs \<and> sc (xs ! r) < sc (xs ! m) then r else m)
      in if k \<noteq> i then sift_down sc (swap xs i k) k else xs)"
  by pat_completeness auto
termination
  by (relation "measure (\<lambda>(sc, xs, i). length xs - i)")
     (auto simp: swap_def Let_def split: if_splits)

declare sift_down.simps [simp del]

definition heap_push :: "('a \<Rightarrow> number) \<Rightarrow> 'a list \<Rightarrow> 'a \<Rightarrow> 'a list" where
  "heap_push sc xs v = sift_up sc (xs @ [v]) (length xs)"

text \<open>Popping an empty heap signals it by \<open>None\<close>.\<close>

definition heap_pop :: "('a \<Rightarrow> number) \<Rightarrow> 'a list \<Rightarrow> ('a \<times> 'a list) option" where
  "heap_pop sc xs =
     (if xs = [] then None
      else Some (xs ! 0, sift_down sc (butlast (swap xs 0 (length xs - 1))) 0))"

fun index_of :: "'a list \<Rightarrow> 'a \<Rightarrow> nat option" where
  "index_of [] v = None"
| "index_of (x # xs) v = (if x = v then Some 0 else map_option Suc (index_of xs v))"

definition rescoreElement :: "('a \<Rightarrow> number) \<Rightarrow> 'a list \<Rightarrow> 'a \<Rightarrow> 'a list" where
  "rescoreElement sc xs v = (case index_of xs v of None \<Rightarrow> xs | Some i \<Rightarrow> sift_up sc xs i)"

subsection \<open>Search nodes\<close>

text \<open>
  A node refers to its parent node; nodes are mutable and shared between the heap and
  the dictionaries of a search. The model keeps the nodes of one search in a list in
  order of creation and refers to a node by its position there.
\<close>

record node =
  hex :: hexagon
  parent :: "nat option"
  G :: number
  H :: number
  F :: number

text \<open>\<^verbatim>\<open>this.parent = parent; this.G = g; this.H = h || 0; this.F = this.G + this.H;\<close>\<close>

definition rescore :: "node \<Rightarrow> nat option \<Rightarrow> number \<Rightarrow> number option \<Rightarrow> node" where
  "rescore nd p g h =
     (let h0 = (case h of Some v \<Rightarrow> if v \<noteq> 0 then v else 0 | None \<Rightarrow> 0)
      in nd\<lparr>parent := p, G := g, H := h0, F := g + h0\<rparr>)"

definition Node :: "hexagon \<Rightarrow> nat option \<Rightarrow> number \<Rightarrow> number option \<Rightarrow> node" where
  "Node hx p g h = rescore \<lparr>hex = hx, parent = None, G = 0, H = 0, F = 0\<rparr> p g h"

type_synonym key = "number \<times> number"

text \<open>
  The state of a search: the nodes created so far, the heap of node references, the
  keys of \<^verbatim>\<open>closedHexes\<close> (only the presence of a key is ever read) and \<^verbatim>\<open>visitedNodes\<close>
  in insertion order, which is the order \<^verbatim>\<open>for (var i in visitedNodes)\<close> enumerates.
\<close>

record search =
  nodes :: "node list"
  openHeap :: "nat list"
  closedHexes :: "key set"
  visitedNodes :: "(key \<times> nat) list"

definition score :: "node list \<Rightarrow> nat \<Rightarrow> number" where
  "score ns i = F (ns ! i)"

subsection \<open>getRange\<close>

text \<open>
  The start argument is stored as the hex of the first node. Of that node's hex only
  the coordinates are ever read (its key, its neighbours), and it is never returned; the
  model takes a hexagon for it.
\<close>

definition range_neighbor :: "number \<Rightarrow> nat \<Rightarrow> hexagon \<Rightarrow> search \<Rightarrow> search" where
  "range_neighbor movement current n s =
     (if blocked n \<or> getKey n \<in> closedHexes s then s
      else let g = G (nodes s ! current) + cost n;
               visited = map_of (visitedNodes s) (getKey n)
           in if g \<le> movement \<and> (case visited of None \<Rightarrow> True | Some v \<Rightarrow> g < G (nodes s ! v))
              then (case visited of
                      None \<Rightarrow>
                        let nNode = Node n (Some current) g (Some 0);
                            i = length (nodes s);
                            ns = nodes s @ [nNode]
                        in s\<lparr>nodes := ns,
                             visitedNodes := visitedNodes s @ [(getKey n, i)],
                             openHeap := heap_push (score ns) (openHeap s) i\<rparr>
                    | Some v \<Rightarrow>
                        let ns = (nodes s)[v := rescore (nodes s ! v) (Some current) g (Some 0)]
                        in s\<lparr>nodes := ns,
                             openHeap := rescoreElement (score ns) (openHeap s) v\<rparr>)
              else s)"

definition range_step :: "grid \<Rightarrow> number \<Rightarrow> search \<Rightarrow> search" where
  "range_step g movement s =
     (case heap_pop (score (nodes s)) (openHeap s) of
        None \<Rightarrow> s
      | Some (current, rest) \<Rightarrow>
          let s1 = s\<lparr>openHeap := rest,
                     closedHexes := insert (getKey (hex (nodes s ! current))) (closedHexes s)\<rparr>
          in fold (range_neighbor movement current)
               (getNeighbors g (hex (nodes s ! current))) s1)"

definition range_init :: "hexagon \<Rightarrow> search" where
  "range_init start =
     (let ns = [Node start None 0 None]
      in \<lparr>nodes = ns, openHeap = heap_push (score ns) [] 0,
          closedHexes = {}, visitedNodes = []\<rparr>)"

text \<open>The loop may in principle not end; \<open>None\<close> stands for that.\<close>

definition getRange :: "grid \<Rightarrow> hexagon \<Rightarrow> number \<Rightarrow> hexagon list option" where
  "getRange g start movement =
     map_option (\<lambda>s. map (\<lambda>(k, i). hex (nodes s ! i)) (visitedNodes s))
       (while_option (\<lambda>s. openHeap s \<noteq> []) (range_step g movement) (range_init start))"

subsection \<open>findPath\<close>

text \<open>
  The loop that walks the parent references back from the node of the end hexagon:
  \<^verbatim>\<open>while (current.parent) { path.push(current); current = current.parent; }\<close>
\<close>

definition backtrack :: "node list \<Rightarrow> nat \<Rightarrow> nat list option" where
  "backtrack ns current =
     map_option fst
       (while_option (\<lambda>(path, c). parent (ns ! c) \<noteq> None)
          (\<lambda>(path, c). (path @ [c], the (parent (ns ! c)))) ([], current))"

text \<open>
  A new node is stored in \<^verbatim>\<open>closedHexes\<close> (line 310 of the source), not in
  \<^verbatim>\<open>visitedNodes\<close> as in getRange.
\<close>

definition path_neighbor :: "'a axial_scheme \<Rightarrow> nat \<Rightarrow> hexagon \<Rightarrow> search \<Rightarrow> search" where
  "path_neighbor end current n s =
     (if blocked n \<or> getKey n \<in> closedHexes s then s
      else let g = G (nodes s ! current) + cost n;
               visited = map_of (visitedNodes s) (getKey n)
           in if (case visited of None \<Rightarrow> True | Some v \<Rightarrow> g < G (nodes s ! v))
              then let h = getDistance n end
                   in (case visited of
                      None \<Rightarrow>
                        let nNode = Node n (Some current) g (Some h);
                            i = length (nodes s);
                            ns = nodes s @ [nNode]
                        in s\<lparr>nodes := ns,
                             closedHexes := insert (getKey (hex nNode)) (closedHexes s),
                             openHeap := heap_push (score ns) (openHeap s) i\<rparr>
                    | Some v \<Rightarrow>
                        let ns = (nodes s)[v := rescore (nodes s ! v) (Some current) g (Some h)]
                        in s\<lparr>nodes := ns,
                             openHeap := rescoreElement (score ns) (openHeap s) v\<rparr>)
              else s)"

text \<open>
  One turn of the main loop. The second component is the value returned from inside
  the loop, once the end hexagon is popped; \<open>None\<close> in it while the loop goes on.
\<close>

definition path_step ::
  "grid \<Rightarrow> 'a axial_scheme \<Rightarrow> search \<times> hexagon list option option
     \<Rightarrow> search \<times> hexagon list option option" where
  "path_step g end st =
     (let s = fst st in
      case heap_pop (score (nodes s)) (openHeap s) of
        None \<Rightarrow> st
      | Some (current, rest) \<Rightarrow>
          let s0 = s\<lparr>openHeap := rest\<rparr> in
          if compareTo (hex (nodes s ! current)) end
          then (s0, Some (map_option (\<lambda>path. rev (map (\<lambda>i. hex (nodes s ! i)) path))
                           (backtrack (nodes s) current)))
          else
            let s1 = s0\<lparr>closedHexes :=
                         insert (getKey (hex (nodes s ! current))) (closedHexes s0)\<rparr>
            in (fold (path_neighbor end current)
                  (getNeighbors g (hex (nodes s ! current))) s1, None))"

definition path_init :: "hexagon \<Rightarrow> 'a axial_scheme \<Rightarrow> search" where
  "path_init start end =
     (let ns = [Node start None 0 (Some (getDistance start end))]
      in \<lparr>nodes = ns, openHeap = heap_push (score ns) [] 0,
          closedHexes = {}, visitedNodes = []\<rparr>)"

definition path_loop ::
  "grid \<Rightarrow> hexagon \<Rightarrow> 'a axial_scheme \<Rightarrow> (search \<times> hexagon list option option) option" where
  "path_loop g start end =
     while_option (\<lambda>(s, res). openHeap s \<noteq> [] \<and> res = None) (path_step g end)
       (path_init start end, None)"

text \<open>\<open>None\<close>: one of the two loops does not end. Otherwise the path, or \<open>[]\<close>.\<close>

definition findPath :: "grid \<Rightarrow> hexagon \<Rightarrow> 'a axial_scheme \<Rightarrow> hexagon list option" where
  "findPath g start end =
     (case path_loop g start end of
        None \<Rightarrow> None
      | Some (s, Some r) \<Rightarrow> r
      | Some (s, None) \<Rightarrow> Some [])"

subsection \<open>Paths, and a grid with a detour\<close>

text \<open>
  A path from a hexagon: each cell is a neighbour of the one before it and is not
  blocked. Its cost is the sum of the costs of its cells (the start is not on it).
\<close>

fun is_path :: "grid \<Rightarrow> hexagon \<Rightarrow> hexagon list \<Rightarrow> bool" where
  "is_path g a [] = True"
| "is_path g a (h # hs) = (h \<in> set (getNeighbors g a) \<and> \<not> blocked h \<and> is_path g h hs)"

definition path_cost :: "hexagon list \<Rightarrow> number" where
  "path_cost p = sum_list (map cost p)"

text \<open>
  The grid of radius 2 after its user has set the cost of the centre to 1.5 and blocked
  every cell but (-1,0), (0,0), (0,-1), (1,-1), (2,-1) and (2,0).
\<close>

definition detour_grid :: grid where
  "detour_grid = (Grid 2)\<lparr>hexes := map (\<lambda>h.
      if getKey h = (0, 0) then h\<lparr>cost := 3 / 2\<rparr>
      else if getKey h \<in> set [(- 1, 0), (0, - 1), (1, - 1), (2, - 1), (2, 0)] then h
      else h\<lparr>blocked := True\<rparr>) (hexes (Grid 2))\<rparr>"

subsection \<open>Invariants of the heap and of getRange\<close>

text \<open>
  The heap property of an array, and the two weaker forms that hold while an element is
  sifted up or down: every parent is below its children, except at the one position.
\<close>

definition hp :: "('a \<Rightarrow> number) \<Rightarrow> 'a list \<Rightarrow> bool" where
  "hp sc xs = (\<forall>j<length xs. 0 < j \<longrightarrow> sc (xs ! ((j - 1) div 2)) \<le> sc (xs ! j))"

definition up_ok :: "('a \<Rightarrow> number) \<Rightarrow> 'a list \<Rightarrow> nat \<Rightarrow> bool" where
  "up_ok sc xs i =
     ((\<forall>j<length xs. 0 < j \<longrightarrow> j \<noteq> i \<longrightarrow> sc (xs ! ((j - 1) div 2)) \<le> sc (xs ! j)) \<and>
      (\<forall>j<length xs. 0 < j \<longrightarrow> (j - 1) div 2 = i \<longrightarrow> 0 < i \<longrightarrow>
          sc (xs ! ((i - 1) div 2)) \<le> sc (xs ! j)))"

definition down_ok :: "('a \<Rightarrow> number) \<Rightarrow> 'a list \<Rightarrow> nat \<Rightarrow> bool" where
  "down_ok sc xs i =
     ((\<forall>j<length xs. 0 < j \<longrightarrow> (j - 1) div 2 \<noteq> i \<longrightarrow> sc (xs ! ((j - 1) div 2)) \<le> sc (xs ! j)) \<and>
      (\<forall>j<length xs. 0 < j \<longrightarrow> (j - 1) div 2 = i \<longrightarrow> 0 < i \<longrightarrow>
          sc (xs ! ((i - 1) div 2)) \<le> sc (xs ! j)))"


text \<open>
  The cells within a budget: the ends of the paths from the start that cost at most the
  budget, the start's own position left out.
\<close>

definition within_budget :: "grid \<Rightarrow> hexagon \<Rightarrow> number \<Rightarrow> hexagon set" where
  "within_budget g a m =
     {h. \<exists>p. p \<noteq> [] \<and> is_path g a p \<and> last p = h \<and> path_cost p \<le> m \<and> getKey h \<noteq> getKey a}"

text \<open>
  The invariant of the loop of getRange, over the nodes, the closed keys, the heap and
  the visited entries of a state. \<open>base_nodes\<close>: the first node is the start at
  G = 0, keys are distinct, F = G, and every later node was reached from a closed parent
  over an unblocked neighbour within the budget. \<open>base_heap\<close>: the heap holds
  exactly the nodes that are not closed and is ordered. \<open>order_inner\<close>: while
  the neighbours of the popped node c are visited, closed nodes have G at most that of c
  and the others at least. \<open>closure\<close>: every closed node has treated each of
  its neighbours.
\<close>

definition nkey :: "node list \<Rightarrow> nat \<Rightarrow> key" where
  "nkey ns i = getKey (hex (ns ! i))"

definition base_nodes :: "grid \<Rightarrow> hexagon \<Rightarrow> number \<Rightarrow> node list \<Rightarrow> key set \<Rightarrow> bool" where
  "base_nodes g a m ns cl =
     (ns \<noteq> [] \<and> hex (ns ! 0) = a \<and> G (ns ! 0) = 0 \<and>
      distinct (map (\<lambda>n. getKey (hex n)) ns) \<and>
      (\<forall>i<length ns. F (ns ! i) = G (ns ! i)) \<and>
      (\<forall>i<length ns. 0 < i \<longrightarrow>
         (\<exists>p<i. parent (ns ! i) = Some p \<and> nkey ns p \<in> cl \<and>
            hex (ns ! i) \<in> set (getNeighbors g (hex (ns ! p))) \<and> \<not> blocked (hex (ns ! i)) \<and>
            G (ns ! i) = G (ns ! p) + cost (hex (ns ! i)) \<and> G (ns ! i) \<le> m)) \<and>
      cl \<subseteq> nkey ns ` {..<length ns})"

definition base_heap :: "node list \<Rightarrow> key set \<Rightarrow> nat list \<Rightarrow> bool" where
  "base_heap ns cl h =
     (distinct h \<and> set h = {i. i < length ns \<and> nkey ns i \<notin> cl} \<and> hp (score ns) h)"

definition base_visited :: "node list \<Rightarrow> (key \<times> nat) list \<Rightarrow> bool" where
  "base_visited ns vs = (vs = map (\<lambda>i. (nkey ns i, i)) [1..<length ns])"

definition range_base :: "grid \<Rightarrow> hexagon \<Rightarrow> number \<Rightarrow> search \<Rightarrow> bool" where
  "range_base g a m s =
     (base_nodes g a m (nodes s) (closedHexes s) \<and>
      base_heap (nodes s) (closedHexes s) (openHeap s) \<and>
      base_visited (nodes s) (visitedNodes s))"

definition order_inner :: "node list \<Rightarrow> key set \<Rightarrow> nat \<Rightarrow> bool" where
  "order_inner ns cl c =
     (c < length ns \<and> nkey ns c \<in> cl \<and> nkey ns 0 \<in> cl \<and>
      (\<forall>i<length ns. nkey ns i \<in> cl \<longrightarrow> G (ns ! i) \<le> G (ns ! c)) \<and>
      (\<forall>i<length ns. nkey ns i \<notin> cl \<longrightarrow> G (ns ! c) \<le> G (ns ! i)))"

definition closed_at :: "number \<Rightarrow> node list \<Rightarrow> nat \<Rightarrow> hexagon \<Rightarrow> bool" where
  "closed_at m ns c n =
     (\<not> blocked n \<longrightarrow> G (ns ! c) + cost n \<le> m \<longrightarrow>
        (\<exists>j<length ns. nkey ns j = getKey n \<and> G (ns ! j) \<le> G (ns ! c) + cost n))"

definition closure :: "grid \<Rightarrow> number \<Rightarrow> node list \<Rightarrow> key set \<Rightarrow> nat set \<Rightarrow> bool" where
  "closure g m ns cl ex =
     (\<forall>c<length ns. nkey ns c \<in> cl \<longrightarrow> c \<notin> ex \<longrightarrow>
        (\<forall>n\<in>set (getNeighbors g (hex (ns ! c))). closed_at m ns c n))"

definition range_inner :: "grid \<Rightarrow> hexagon \<Rightarrow> number \<Rightarrow> nat \<Rightarrow> search \<Rightarrow> bool" where
  "range_inner g a m c s =
     (range_base g a m s \<and> order_inner (nodes s) (closedHexes s) c \<and>
      closure g m (nodes s) (closedHexes s) {c})"

definition range_inv :: "grid \<Rightarrow> hexagon \<Rightarrow> number \<Rightarrow> search \<Rightarrow> bool" where
  "range_inv g a m s =
     (range_base g a m s \<and>
      (nkey (nodes s) 0 \<in> closedHexes s \<or> length (nodes s) = 1) \<and>
      (\<forall>i<length (nodes s). \<forall>j<length (nodes s).
         nkey (nodes s) i \<in> closedHexes s \<longrightarrow> nkey (nodes s) j \<notin> closedHexes s \<longrightarrow>
         G (nodes s ! i) \<le> G (nodes s ! j)) \<and>
      closure g m (nodes s) (closedHexes s) {})"


text \<open>
  Integer coordinates: the hexagon of radius r, and twice the distance of two cells
  from the differences of their coordinates.
\<close>

definition in_region :: "int \<Rightarrow> int \<Rightarrow> int \<Rightarrow> bool" where
  "in_region r x y = (\<bar>x\<bar> \<le> r \<and> \<bar>y\<bar> \<le> r \<and> \<bar>x + y\<bar> \<le> r)"

definition hexnorm :: "int \<Rightarrow> int \<Rightarrow> int" where
  "hexnorm dx dy = \<bar>dx\<bar> + \<bar>dx + dy\<bar> + \<bar>dy\<bar>"


text \<open>The cell that the constructor of a grid makes for integer coordinates.\<close>

definition cell :: "int \<Rightarrow> int \<Rightarrow> hexagon" where
  "cell x y = Hexagon (of_int x) (of_int y) None Undefined"


section \<open>Properties\<close>

subsection \<open>Coordinates and rounding\<close>


text \<open>
  Claim C4, as amended. Rounding the cube (0.6, -1.3, 0.7) rounds the components to
  (1, -1, 1) with residuals 0.4, 0.3 and 0.3; x has the strictly largest residual and is
  recomputed from the other two, which gives (0, -1, 1).
\<close>

theorem round_cube_example:
  "round_cube (Cube (6 / 10) (- 13 / 10) (Some (7 / 10)))
     = \<lparr>axial_x = 0, axial_y = - 1, cube_z = 1\<rparr>
   \<and> Math_round (6 / 10) = 1 \<and> Math_round (- 13 / 10) = - 1 \<and> Math_round (7 / 10) = 1
   \<and> \<bar>Math_round (6 / 10) - 6 / 10\<bar> = 4 / 10
   \<and> \<bar>Math_round (- 13 / 10) - (- 13 / 10)\<bar> = 3 / 10
   \<and> \<bar>Math_round (7 / 10) - 7 / 10\<bar> = 3 / 10"
  by code_simp

text \<open>The result is not the point (1, -1, 0) that claim C4 names.\<close>

theorem round_cube_example_not_as_claimed:
  "round_cube (Cube (6 / 10) (- 13 / 10) (Some (7 / 10)))
     \<noteq> \<lparr>axial_x = 1, axial_y = - 1, cube_z = 0\<rparr>"
  by code_simp

subsection \<open>Constructors\<close>

lemma loop_values_empty: "hi < v \<Longrightarrow> loop_values v hi = []"
  by (subst loop_values.simps) simp

text \<open>
  Claim C5, as amended. Neither constructor has a failing branch. A negative radius
  gives a grid that stores the radius and has no cells; a cost below 1 is stored as it
  is, except that 0 becomes 1.
\<close>

theorem constructors_accept_malformed:
  "r < 0 \<Longrightarrow> c < 1 \<Longrightarrow>
     Grid r = \<lparr>radius = r, hexes = []\<rparr>
     \<and> cost (Hexagon x y (Some c) b) = (if c = 0 then 1 else c)"
  by (simp add: Grid_def Hexagon_def loop_values_empty)

theorem constructors_accept_malformed_witness:
  "(- 3 :: number) < 0 \<and> (- 2 :: number) < 1
   \<and> Grid (- 3) = \<lparr>radius = - 3, hexes = []\<rparr>
   \<and> cost (Hexagon 0 0 (Some (- 2)) Undefined) = - 2"
  using constructors_accept_malformed [of "- 3" "- 2" 0 0 Undefined] by simp

text \<open>
  Against claim C5 as stated: radius -1 and cost 1/2 are not rejected, the constructors
  return these values.
\<close>

theorem constructors_do_not_reject:
  "Grid (- 1) = \<lparr>radius = - 1, hexes = []\<rparr>
   \<and> Hexagon 0 0 (Some (1 / 2)) Undefined
       = \<lparr>axial_x = 0, axial_y = 0, cost = 1 / 2, blocked = False\<rparr>"
  by (simp add: Grid_def Hexagon_def loop_values_empty)

text \<open>
  Claim C10. The constructor of a hexagon takes an omitted or zero cost as cost 1,
  stores any other cost unchanged, also one between 0 and 1, and stores the truthiness
  of its blocked argument.
\<close>

theorem Hexagon_cost_blocked:
  "cost (Hexagon x y None b) = 1 \<and> cost (Hexagon x y (Some 0) b) = 1
   \<and> (c \<noteq> 0 \<longrightarrow> cost (Hexagon x y (Some c) b) = c)
   \<and> blocked (Hexagon x y k b) = truthy b
   \<and> axial_x (Hexagon x y k b) = x \<and> axial_y (Hexagon x y k b) = y"
  by (simp add: Hexagon_def)

theorem Hexagon_cost_blocked_witness:
  "cost (Hexagon 0 0 None (String ''yes'')) = 1 \<and> cost (Hexagon 0 0 (Some 0) (String ''yes'')) = 1
   \<and> (1 / 2 :: number) \<noteq> 0 \<and> cost (Hexagon 0 0 (Some (1 / 2)) (String ''yes'')) = 1 / 2
   \<and> blocked (Hexagon 0 0 (Some (1 / 2)) (String ''yes''))
   \<and> \<not> blocked (Hexagon 0 0 (Some (1 / 2)) (Number 0))"
  using Hexagon_cost_blocked [of 0 0 "String ''yes''" "1 / 2" "Some (1 / 2)"]
    Hexagon_cost_blocked [of 0 0 "Number 0" "1 / 2" "Some (1 / 2)"]
  by simp

subsection \<open>Distance\<close>

lemma getDistance_sym: "getDistance a b = getDistance b a"
  unfolding getDistance_def by (simp add: abs_minus_commute)

lemma getDistance_zero:
  "(getDistance a b = 0) = (axial_x a = axial_x b \<and> axial_y a = axial_y b)"
  unfolding getDistance_def by auto

lemma getDistance_triangle: "getDistance a b \<le> getDistance a c + getDistance c b"
proof -
  let ?n = "\<lambda>px py qx qy :: number. \<bar>px - qx\<bar> + \<bar>px + py - qx - qy\<bar> + \<bar>py - qy\<bar>"
  have "?n (axial_x a) (axial_y a) (axial_x b) (axial_y b)
      \<le> ?n (axial_x a) (axial_y a) (axial_x c) (axial_y c)
        + ?n (axial_x c) (axial_y c) (axial_x b) (axial_y b)"
    by linarith
  then have "?n (axial_x a) (axial_y a) (axial_x b) (axial_y b) / 2
      \<le> (?n (axial_x a) (axial_y a) (axial_x c) (axial_y c)
        + ?n (axial_x c) (axial_y c) (axial_x b) (axial_y b)) / 2"
    by (rule divide_right_mono) simp
  then show ?thesis unfolding getDistance_def by (simp only: add_divide_distrib)
qed

text \<open>
  Claim C9. getDistance is symmetric, is zero exactly when the two positions have equal
  coordinates, and satisfies the triangle inequality.
\<close>

theorem getDistance_metric:
  "getDistance a b = getDistance b a
   \<and> ((getDistance a b = 0) = (axial_x a = axial_x b \<and> axial_y a = axial_y b))
   \<and> getDistance a b \<le> getDistance a c + getDistance c b"
  using getDistance_sym [of a b] getDistance_zero [of a b] getDistance_triangle [of a b c]
  by blast

subsection \<open>Neighbours\<close>

lemma getHexAt_Some: "getHexAt g d = Some h \<Longrightarrow> compareTo h d \<and> h \<in> set (hexes g)"
  unfolding getHexAt_def by (auto simp: find_Some_iff)

lemma getHexAt_None: "(getHexAt g d = None) = (\<not> (\<exists>h\<in>set (hexes g). compareTo h d))"
  unfolding getHexAt_def by (auto simp: find_None_iff)

lemma neighbor_keys:
  "map getKey (concat (map (\<lambda>d. case getHexAt g d of Some h \<Rightarrow> [h] | None \<Rightarrow> []) ds))
     = map getKey (filter (\<lambda>d. \<exists>h\<in>set (hexes g). compareTo h d) ds)"
proof (induction ds)
  case Nil
  show ?case by simp
next
  case (Cons d ds)
  show ?case
  proof (cases "getHexAt g d")
    case None
    then show ?thesis using Cons getHexAt_None[of g d] by simp
  next
    case (Some h)
    then have "compareTo h d" "h \<in> set (hexes g)" using getHexAt_Some by blast+
    then show ?thesis using Cons Some by (auto simp: getKey_def compareTo_def)
  qed
qed

lemma getNeighbors_keys:
  "map getKey (getNeighbors g a)
     = map getKey (filter (\<lambda>d. \<exists>h\<in>set (hexes g). compareTo h d) (directions a))"
  unfolding getNeighbors_def by (rule neighbor_keys)

lemma distinct_direction_keys: "distinct (map getKey (directions a))"
  by (simp add: directions_def getKey_def Axial_def)

lemma direction_distance:
  "d \<in> set (directions a) \<Longrightarrow> getKey h = getKey d \<Longrightarrow> getDistance a h = 1"
  by (auto simp: directions_def getKey_def Axial_def getDistance_def)

lemma getNeighbors_distinct: "distinct (getNeighbors g a)"
proof -
  have "distinct (map getKey (filter (\<lambda>d. \<exists>h\<in>set (hexes g). compareTo h d) (directions a)))"
    using distinct_direction_keys by (rule distinct_map_filter)
  then have "distinct (map getKey (getNeighbors g a))" by (simp only: getNeighbors_keys)
  then show ?thesis by (simp add: distinct_map)
qed

lemma getNeighbors_distance: "h \<in> set (getNeighbors g a) \<Longrightarrow> getDistance a h = 1"
proof -
  assume "h \<in> set (getNeighbors g a)"
  then have "getKey h \<in> set (map getKey (getNeighbors g a))" by simp
  then obtain d where "d \<in> set (directions a)" "getKey h = getKey d"
    unfolding getNeighbors_keys by auto
  then show "getDistance a h = 1" by (rule direction_distance)
qed

text \<open>
  Claim C8. For every position, getNeighbors returns at most six cells, without
  duplicates, each at distance 1; their coordinates are those of the six offsets
  (+1,0), (+1,-1), (0,-1), (-1,0), (-1,+1), (0,+1), in this order, that some cell of the
  grid has. An offset without a cell is left out.
\<close>

theorem getNeighbors_spec:
  "length (getNeighbors g a) \<le> 6 \<and> distinct (getNeighbors g a) \<and>
   (\<forall>h \<in> set (getNeighbors g a). getDistance a h = 1) \<and>
   map getKey (getNeighbors g a)
     = filter (\<lambda>k. \<exists>h \<in> set (hexes g). getKey h = k)
        [(axial_x a + 1, axial_y a), (axial_x a + 1, axial_y a - 1), (axial_x a, axial_y a - 1),
         (axial_x a - 1, axial_y a), (axial_x a - 1, axial_y a + 1), (axial_x a, axial_y a + 1)]"
proof -
  let ?P = "\<lambda>d. \<exists>h\<in>set (hexes g). compareTo h d"
  have k: "map getKey (getNeighbors g a) = map getKey (filter ?P (directions a))"
    by (rule getNeighbors_keys)
  have "length (getNeighbors g a) = length (map getKey (getNeighbors g a))" by simp
  also have "\<dots> \<le> length (directions a)" unfolding k by simp
  finally have len: "length (getNeighbors g a) \<le> 6" by (simp add: directions_def)
  have "map getKey (filter ?P (directions a))
      = filter (\<lambda>k. \<exists>h \<in> set (hexes g). getKey h = k) (map getKey (directions a))"
    by (simp add: filter_map comp_def compareTo_def getKey_def)
  then have ord: "map getKey (getNeighbors g a)
     = filter (\<lambda>k. \<exists>h \<in> set (hexes g). getKey h = k)
        [(axial_x a + 1, axial_y a), (axial_x a + 1, axial_y a - 1), (axial_x a, axial_y a - 1),
         (axial_x a - 1, axial_y a), (axial_x a - 1, axial_y a + 1), (axial_x a, axial_y a + 1)]"
    unfolding k by (simp add: directions_def getKey_def Axial_def)
  from len getNeighbors_distinct getNeighbors_distance ord show ?thesis by blast
qed

theorem getNeighbors_spec_witness:
  "length (getNeighbors (Grid 1) (Axial 1 0)) \<le> 6 \<and> distinct (getNeighbors (Grid 1) (Axial 1 0))
   \<and> list_all (\<lambda>h. getDistance (Axial 1 0) h = 1) (getNeighbors (Grid 1) (Axial 1 0))
   \<and> map getKey (getNeighbors (Grid 1) (Axial 1 0)) = [(1, - 1), (0, 0), (0, 1)]"
proof -
  have "map getKey (getNeighbors (Grid 1) (Axial 1 0)) = [(1, - 1), (0, 0), (0, 1)]"
    by code_simp
  then show ?thesis
    using getNeighbors_spec [of "Grid 1" "Axial 1 0"] by (simp add: list_all_iff)
qed

subsection \<open>The cells of a grid\<close>

lemma loop_values_int: "loop_values (of_int a) (of_int b) = map of_int [a..b]"
proof (induction "nat (b - a + 1)" arbitrary: a)
  case 0
  then have "b < a" by simp
  then show ?case by (subst loop_values.simps) simp
next
  case (Suc n)
  then have le: "a \<le> b" by simp
  have "n = nat (b - (a + 1) + 1)" using Suc(2) by simp
  then have "loop_values (of_int (a + 1)) (of_int b) = map of_int [a + 1..b]" by (rule Suc(1))
  then show ?case using le by (subst loop_values.simps) (simp add: upto_rec1 add.commute)
qed










lemma grid_hexes_int:
  "hexes (Grid (of_int r)) =
     concat (map (\<lambda>x. concat (map (\<lambda>y. concat (map (\<lambda>z.
        if x + y + z = 0 then [Hexagon (of_int x) (of_int y) None Undefined] else [])
      [- r..r])) [- r..r])) [- r..r])"
proof -
  have "loop_values (- of_int r) (of_int r) = map of_int [- r..r]"
    using loop_values_int[of "- r" r] by simp
  moreover have "\<And>x y z :: int. (rat_of_int x + rat_of_int y + rat_of_int z = 0) = (x + y + z = 0)"
    by (metis of_int_add of_int_eq_0_iff)
  ultimately show ?thesis by (simp add: Grid_def map_concat comp_def)
qed





subsection \<open>The binary heap keeps its order\<close>

lemma length_swap [simp]: "length (swap xs i j) = length xs"
  by (simp add: swap_def)

lemma mset_swap: "i < length xs \<Longrightarrow> j < length xs \<Longrightarrow> mset (swap xs i j) = mset xs"
  by (simp add: swap_def mset_swap)

lemma nth_swap:
  "i < length xs \<Longrightarrow> j < length xs \<Longrightarrow> k < length xs \<Longrightarrow>
     swap xs i j ! k = (if k = j then xs ! i else if k = i then xs ! j else xs ! k)"
  by (simp add: swap_def nth_list_update)

lemma parent_less: "0 < j \<Longrightarrow> (j - 1) div 2 < (j::nat)"
  by arith

lemma sift_up_length [simp]: "length (sift_up sc xs i) = length xs"
proof (induction sc xs i rule: sift_up.induct)
  case (1 sc xs i)
  then show ?case by (subst sift_up.simps) (simp add: Let_def)
qed

lemma sift_up_mset: "i < length xs \<Longrightarrow> mset (sift_up sc xs i) = mset xs"
proof (induction sc xs i rule: sift_up.induct)
  case (1 sc xs i)
  show ?case
  proof (cases "i \<noteq> 0 \<and> sc (xs ! i) < sc (xs ! ((i - 1) div 2))")
    case True
    then have p: "(i - 1) div 2 < length xs" using 1(2) parent_less[of i] by simp
    have "mset (sift_up sc (swap xs i ((i - 1) div 2)) ((i - 1) div 2)) = mset (swap xs i ((i - 1) div 2))"
      using 1(1)[OF _ refl] True p by simp
    then show ?thesis using True p 1(2) by (subst sift_up.simps) (simp add: mset_swap Let_def)
  next
    case False
    then show ?thesis by (subst sift_up.simps) (auto simp: Let_def)
  qed
qed

lemma up_ok_swap:
  assumes i: "i < length xs" "0 < i" and lt: "sc (xs ! i) < sc (xs ! ((i - 1) div 2))"
    and ok: "up_ok sc xs i"
  shows "up_ok sc (swap xs i ((i - 1) div 2)) ((i - 1) div 2)"
proof -
  let ?p = "(i - 1) div 2"
  let ?ys = "swap xs i ?p"
  have p: "?p < i" "?p < length xs" using i parent_less[of i] by simp_all
  have old: "\<And>j. j < length xs \<Longrightarrow> 0 < j \<Longrightarrow> j \<noteq> i \<Longrightarrow> sc (xs ! ((j - 1) div 2)) \<le> sc (xs ! j)"
    using ok unfolding up_ok_def by blast
  have gp: "\<And>j. j < length xs \<Longrightarrow> 0 < j \<Longrightarrow> (j - 1) div 2 = i \<Longrightarrow> sc (xs ! ?p) \<le> sc (xs ! j)"
    using ok i unfolding up_ok_def by blast
  have nth: "\<And>k. k < length xs \<Longrightarrow> ?ys ! k = (if k = ?p then xs ! i else if k = i then xs ! ?p else xs ! k)"
    using i p by (simp add: nth_swap)
  have yp: "?ys ! ?p = xs ! i" using nth[of ?p] p by simp
  have yi: "?ys ! i = xs ! ?p" using nth[of i] i p by simp
  have yo: "\<And>k. k < length xs \<Longrightarrow> k \<noteq> i \<Longrightarrow> k \<noteq> ?p \<Longrightarrow> ?ys ! k = xs ! k"
    using nth by simp
  have A: "sc (?ys ! ((j - 1) div 2)) \<le> sc (?ys ! j)" if j: "j < length xs" "0 < j" "j \<noteq> ?p" for j
  proof -
    define q where "q = (j - 1) div 2"
    have q: "q < j" "q < length xs" using j parent_less[of j] by (simp_all add: q_def)
    have goal: "sc (?ys ! q) \<le> sc (?ys ! j)"
    proof (cases "j = i")
      case True
      then have "q = ?p" by (simp add: q_def)
      then show ?thesis using True yp yi lt by simp
    next
      case ji: False
      have yj: "?ys ! j = xs ! j" using yo[OF j(1) ji j(3)] .
      have oj: "sc (xs ! q) \<le> sc (xs ! j)" using old[OF j(1,2) ji] by (simp add: q_def)
      show ?thesis
      proof (cases "q = ?p")
        case True
        have "sc (xs ! i) \<le> sc (xs ! j)" using oj lt True by simp
        then show ?thesis unfolding yj True yp .
      next
        case qp: False
        show ?thesis
        proof (cases "q = i")
          case True
          have "sc (xs ! ?p) \<le> sc (xs ! j)" using gp[OF j(1,2)] True by (simp add: q_def)
          then show ?thesis unfolding yj True yi .
        next
          case False
          have "?ys ! q = xs ! q" using yo[OF q(2) False qp] .
          then show ?thesis unfolding yj using oj by simp
        qed
      qed
    qed
    then show ?thesis by (simp add: q_def)
  qed
  have B: "sc (?ys ! ((?p - 1) div 2)) \<le> sc (?ys ! j)"
    if j: "j < length xs" "0 < j" "(j - 1) div 2 = ?p" "0 < ?p" for j
  proof -
    define g where "g = (?p - 1) div 2"
    have g: "g < ?p" "g < length xs" using parent_less[OF j(4)] p by (simp_all add: g_def)
    have gpar: "sc (xs ! g) \<le> sc (xs ! ?p)" using old[of ?p] p j(4) by (simp add: g_def)
    have yg: "?ys ! g = xs ! g" using yo[of g] g p by simp
    have goal: "sc (?ys ! g) \<le> sc (?ys ! j)"
    proof (cases "j = i")
      case True
      show ?thesis unfolding yg True yi using gpar .
    next
      case False
      have jp: "j \<noteq> ?p" using parent_less[OF j(2)] j(3) by simp
      have "sc (xs ! ?p) \<le> sc (xs ! j)" using old[OF j(1,2) False] j(3) by simp
      then have "sc (xs ! g) \<le> sc (xs ! j)" using gpar by simp
      then show ?thesis unfolding yg yo[OF j(1) False jp] .
    qed
    then show ?thesis by (simp add: g_def)
  qed
  show ?thesis unfolding up_ok_def using A B by simp
qed

lemma sift_up_hp: "i < length xs \<Longrightarrow> up_ok sc xs i \<Longrightarrow> hp sc (sift_up sc xs i)"
proof (induction sc xs i rule: sift_up.induct)
  case (1 sc xs i)
  show ?case
  proof (cases "i = 0")
    case True
    then have "hp sc xs" using 1(3) unfolding up_ok_def hp_def by simp
    then show ?thesis using True by (subst sift_up.simps) simp
  next
    case i0: False
    let ?p = "(i - 1) div 2"
    show ?thesis
    proof (cases "sc (xs ! i) < sc (xs ! ?p)")
      case True
      have "up_ok sc (swap xs i ?p) ?p" using up_ok_swap[OF 1(2) _ True 1(3)] i0 by simp
      moreover have "?p < length (swap xs i ?p)" using 1(2) parent_less[of i] i0 by simp
      ultimately have "hp sc (sift_up sc (swap xs i ?p) ?p)" using 1(1)[OF i0 refl True] by simp
      then show ?thesis using True i0 by (subst sift_up.simps) (simp add: Let_def)
    next
      case False
      then have "hp sc xs" using 1(3) unfolding up_ok_def hp_def by (metis not_less)
      then show ?thesis using False i0 by (subst sift_up.simps) (simp add: Let_def)
    qed
  qed
qed

lemma heap_push_hp: "hp sc xs \<Longrightarrow> hp sc (heap_push sc xs v)"
proof -
  assume h: "hp sc xs"
  have "up_ok sc (xs @ [v]) (length xs)"
    unfolding up_ok_def
  proof (intro conjI allI impI)
    fix j assume j: "j < length (xs @ [v])" "0 < j" "j \<noteq> length xs"
    then have "j < length xs" by simp
    moreover then have "(j - 1) div 2 < length xs" using parent_less[of j] j by simp
    ultimately show "sc ((xs @ [v]) ! ((j - 1) div 2)) \<le> sc ((xs @ [v]) ! j)"
      using h j unfolding hp_def by (simp add: nth_append)
  next
    fix j assume j: "j < length (xs @ [v])" "0 < j" "(j - 1) div 2 = length xs"
    then have False using parent_less[of j] by simp
    then show "sc ((xs @ [v]) ! ((length xs - 1) div 2)) \<le> sc ((xs @ [v]) ! j)" ..
  qed
  then show ?thesis unfolding heap_push_def by (intro sift_up_hp) simp_all
qed

lemma heap_push_mset: "mset (heap_push sc xs v) = add_mset v (mset xs)"
  unfolding heap_push_def by (simp add: sift_up_mset)


lemma sift_down_length [simp]: "length (sift_down sc xs i) = length xs"
proof (induction sc xs i rule: sift_down.induct)
  case (1 sc xs i)
  define l where "l = 2 * i + 1"
  define r where "r = 2 * i + 2"
  define m where "m = (if l < length xs \<and> sc (xs ! l) < sc (xs ! i) then l else i)"
  define k where "k = (if r < length xs \<and> sc (xs ! r) < sc (xs ! m) then r else m)"
  have unf: "sift_down sc xs i = (if k \<noteq> i then sift_down sc (swap xs i k) k else xs)"
    by (subst sift_down.simps) (simp add: Let_def l_def r_def m_def k_def)
  show ?case
  proof (cases "k = i")
    case True
    then show ?thesis using unf by simp
  next
    case False
    then show ?thesis using unf 1[OF l_def r_def m_def k_def False] by simp
  qed
qed

lemma sift_down_mset: "mset (sift_down sc xs i) = mset xs"
proof (induction sc xs i rule: sift_down.induct)
  case (1 sc xs i)
  define l where "l = 2 * i + 1"
  define r where "r = 2 * i + 2"
  define m where "m = (if l < length xs \<and> sc (xs ! l) < sc (xs ! i) then l else i)"
  define k where "k = (if r < length xs \<and> sc (xs ! r) < sc (xs ! m) then r else m)"
  have unf: "sift_down sc xs i = (if k \<noteq> i then sift_down sc (swap xs i k) k else xs)"
    by (subst sift_down.simps) (simp add: Let_def l_def r_def m_def k_def)
  show ?case
  proof (cases "k = i")
    case True
    then show ?thesis using unf by simp
  next
    case False
    then have kl: "k < length xs" and il: "i < length xs"
      by (auto simp: k_def m_def l_def r_def split: if_splits)
    have "mset (sift_down sc (swap xs i k) k) = mset (swap xs i k)"
      using 1[OF l_def r_def m_def k_def False] .
    then show ?thesis using unf False kl il by (simp add: mset_swap)
  qed
qed

lemma child_iff: "0 < j \<Longrightarrow> ((j - 1) div 2 = i) = (j = 2 * i + 1 \<or> j = 2 * (i::nat) + 2)"
  by arith

lemma down_ok_swap:
  assumes ok: "down_ok sc xs i"
    and k: "k < length xs" "k = 2 * i + 1 \<or> k = 2 * i + 2" "sc (xs ! k) < sc (xs ! i)"
    and least: "\<And>c. c < length xs \<Longrightarrow> c = 2 * i + 1 \<or> c = 2 * i + 2 \<Longrightarrow> sc (xs ! k) \<le> sc (xs ! c)"
  shows "down_ok sc (swap xs i k) k"
proof -
  let ?ys = "swap xs i k"
  have ik: "i < k" "i < length xs" using k by auto
  have pk: "(k - 1) div 2 = i" using k(2) by auto
  have c1: "\<And>j. j < length xs \<Longrightarrow> 0 < j \<Longrightarrow> (j - 1) div 2 \<noteq> i \<Longrightarrow> sc (xs ! ((j - 1) div 2)) \<le> sc (xs ! j)"
    using ok unfolding down_ok_def by blast
  have c2: "\<And>j. j < length xs \<Longrightarrow> 0 < j \<Longrightarrow> (j - 1) div 2 = i \<Longrightarrow> 0 < i \<Longrightarrow> sc (xs ! ((i - 1) div 2)) \<le> sc (xs ! j)"
    using ok unfolding down_ok_def by blast
  have nth: "\<And>j. j < length xs \<Longrightarrow> ?ys ! j = (if j = k then xs ! i else if j = i then xs ! k else xs ! j)"
    using ik k by (simp add: nth_swap)
  have yk: "?ys ! k = xs ! i" using nth[of k] k by simp
  have yi: "?ys ! i = xs ! k" using nth[of i] ik by simp
  have yo: "\<And>j. j < length xs \<Longrightarrow> j \<noteq> i \<Longrightarrow> j \<noteq> k \<Longrightarrow> ?ys ! j = xs ! j"
    using nth by simp
  have A: "sc (?ys ! ((j - 1) div 2)) \<le> sc (?ys ! j)"
    if j: "j < length xs" "0 < j" "(j - 1) div 2 \<noteq> k" for j
  proof -
    define q where "q = (j - 1) div 2"
    have q: "q < j" "q < length xs" "q \<noteq> k" using j parent_less[of j] by (simp_all add: q_def)
    have goal: "sc (?ys ! q) \<le> sc (?ys ! j)"
    proof (cases "j = k")
      case True
      then have "q = i" using pk by (simp add: q_def)
      then show ?thesis unfolding True yk using yi k(3) by simp
    next
      case jk: False
      show ?thesis
      proof (cases "j = i")
        case True
        then have i0: "0 < i" using j by simp
        have qi: "q \<noteq> i" using q True by simp
        have "sc (xs ! ((i - 1) div 2)) \<le> sc (xs ! k)" using c2[OF k(1) _ pk i0] ik by simp
        then have "sc (xs ! q) \<le> sc (xs ! k)" using True by (simp add: q_def)
        then show ?thesis unfolding True yi using yo[OF q(2) qi q(3)] by simp
      next
        case ji: False
        have yj: "?ys ! j = xs ! j" using yo[OF j(1) ji jk] .
        show ?thesis
        proof (cases "q = i")
          case True
          then have "j = 2 * i + 1 \<or> j = 2 * i + 2" using child_iff[OF j(2), of i] by (simp add: q_def)
          then have "sc (xs ! k) \<le> sc (xs ! j)" using least[OF j(1)] by simp
          then show ?thesis unfolding yj True yi .
        next
          case False
          have "sc (xs ! q) \<le> sc (xs ! j)" using c1[OF j(1,2)] False by (simp add: q_def)
          then show ?thesis unfolding yj using yo[OF q(2) False q(3)] by simp
        qed
      qed
    qed
    then show ?thesis by (simp add: q_def)
  qed
  have B: "sc (?ys ! ((k - 1) div 2)) \<le> sc (?ys ! j)"
    if j: "j < length xs" "0 < j" "(j - 1) div 2 = k" for j
  proof -
    have kj: "k < j" using parent_less[OF j(2)] j(3) by simp
    then have "j \<noteq> i" "j \<noteq> k" using ik by simp_all
    then have yj: "?ys ! j = xs ! j" using yo[OF j(1)] by simp
    have "(j - 1) div 2 \<noteq> i" using j(3) ik by simp
    then have "sc (xs ! k) \<le> sc (xs ! j)" using c1[OF j(1,2)] j(3) by simp
    then show ?thesis unfolding pk yi yj .
  qed
  show ?thesis unfolding down_ok_def using A B by simp
qed

lemma down_ok_hp:
  assumes "down_ok sc xs i"
    and "\<And>c. c < length xs \<Longrightarrow> c = 2 * i + 1 \<or> c = 2 * i + 2 \<Longrightarrow> sc (xs ! i) \<le> sc (xs ! c)"
  shows "hp sc xs"
  unfolding hp_def
proof (intro allI impI)
  fix j assume j: "j < length xs" "0 < j"
  show "sc (xs ! ((j - 1) div 2)) \<le> sc (xs ! j)"
  proof (cases "(j - 1) div 2 = i")
    case True
    then have "j = 2 * i + 1 \<or> j = 2 * i + 2" using child_iff[OF j(2), of i] by simp
    then show ?thesis using assms(2)[OF j(1)] True by simp
  next
    case False
    then show ?thesis using assms(1) j unfolding down_ok_def by blast
  qed
qed

lemma sift_down_hp: "down_ok sc xs i \<Longrightarrow> hp sc (sift_down sc xs i)"
proof (induction sc xs i rule: sift_down.induct)
  case (1 sc xs i)
  define l where "l = 2 * i + 1"
  define r where "r = 2 * i + 2"
  define m where "m = (if l < length xs \<and> sc (xs ! l) < sc (xs ! i) then l else i)"
  define k where "k = (if r < length xs \<and> sc (xs ! r) < sc (xs ! m) then r else m)"
  have unf: "sift_down sc xs i = (if k \<noteq> i then sift_down sc (swap xs i k) k else xs)"
    by (subst sift_down.simps) (simp add: Let_def l_def r_def m_def k_def)
  have least: "sc (xs ! k) \<le> sc (xs ! c)" if "c < length xs" "c = 2 * i + 1 \<or> c = 2 * i + 2" for c
    using that by (auto simp: k_def m_def l_def r_def split: if_splits)
  show ?case
  proof (cases "k = i")
    case True
    have "hp sc xs" using down_ok_hp[OF 1(2)] least True by simp
    then show ?thesis using unf True by simp
  next
    case False
    have kl: "k < length xs" "k = 2 * i + 1 \<or> k = 2 * i + 2" "sc (xs ! k) < sc (xs ! i)"
      using False by (auto simp: k_def m_def l_def r_def split: if_splits)
    have "down_ok sc (swap xs i k) k" using down_ok_swap[OF 1(2) kl least] by simp
    then have "hp sc (sift_down sc (swap xs i k) k)"
      using 1(1)[OF l_def r_def m_def k_def False] by simp
    then show ?thesis using unf False by simp
  qed
qed

lemma hp_root_min: "hp sc xs \<Longrightarrow> j < length xs \<Longrightarrow> sc (xs ! 0) \<le> sc (xs ! j)"
proof (induction j rule: less_induct)
  case (less j)
  show ?case
  proof (cases "j = 0")
    case True
    then show ?thesis by simp
  next
    case False
    then have j0: "0 < j" by simp
    have p: "(j - 1) div 2 < j" using parent_less[OF j0] .
    have "sc (xs ! 0) \<le> sc (xs ! ((j - 1) div 2))" using less(1)[OF p less(2)] p less(3) by simp
    moreover have "sc (xs ! ((j - 1) div 2)) \<le> sc (xs ! j)"
      using less(2,3) j0 unfolding hp_def by blast
    ultimately show ?thesis by simp
  qed
qed

lemma heap_pop_None: "(heap_pop sc xs = None) = (xs = [])"
  by (simp add: heap_pop_def)

lemma heap_pop_Some:
  assumes "heap_pop sc xs = Some (x, rest)" "hp sc xs"
  shows "hp sc rest" "mset xs = add_mset x (mset rest)" "\<forall>y\<in>set xs. sc x \<le> sc y"
proof -
  have ne: "xs \<noteq> []" using assms(1) by (auto simp: heap_pop_def split: if_splits)
  define n where "n = length xs"
  have n: "0 < n" using ne by (simp add: n_def)
  define zs where "zs = swap xs 0 (n - 1)"
  define ys where "ys = butlast zs"
  have x: "x = xs ! 0" and rest: "rest = sift_down sc ys 0"
    using assms(1) ne by (auto simp: heap_pop_def ys_def zs_def n_def)
  have lz: "length zs = n" by (simp add: zs_def n_def)
  have zne: "zs \<noteq> []" using lz n by auto
  have "last zs = zs ! (n - 1)" using zne lz by (simp add: last_conv_nth)
  also have "\<dots> = xs ! 0" unfolding zs_def using n nth_swap[of 0 xs "n - 1" "n - 1"] by (simp add: n_def)
  finally have lastz: "last zs = xs ! 0" .
  have "mset zs = mset xs" unfolding zs_def using n by (intro mset_swap) (simp_all add: n_def)
  moreover have "mset zs = add_mset (last zs) (mset (butlast zs))"
  proof -
    have "mset zs = mset (butlast zs @ [last zs])" using append_butlast_last_id[OF zne] by simp
    then show ?thesis by simp
  qed
  ultimately show "mset xs = add_mset x (mset rest)"
    unfolding rest x ys_def lastz[symmetric] by (simp add: sift_down_mset)
  show "\<forall>y\<in>set xs. sc x \<le> sc y"
    unfolding x using hp_root_min[OF assms(2)] by (auto simp: in_set_conv_nth)
  have ly: "length ys = n - 1" by (simp add: ys_def lz)
  have ynth: "ys ! j = xs ! j" if "j < n - 1" "0 < j" for j
  proof -
    have "ys ! j = zs ! j" using that by (simp add: ys_def nth_butlast lz)
    also have "\<dots> = xs ! j" unfolding zs_def using that ne nth_swap[of 0 xs "n - 1" j] by (simp add: n_def)
    finally show ?thesis .
  qed
  have "down_ok sc ys 0"
    unfolding down_ok_def
  proof (intro conjI allI impI)
    fix j assume j: "j < length ys" "0 < j" "(j - 1) div 2 \<noteq> 0"
    have p: "(j - 1) div 2 < j" using parent_less[OF j(2)] .
    have "sc (xs ! ((j - 1) div 2)) \<le> sc (xs ! j)"
      using assms(2) j ly unfolding hp_def n_def by simp
    then show "sc (ys ! ((j - 1) div 2)) \<le> sc (ys ! j)"
      using ynth[of j] ynth[of "(j - 1) div 2"] j p ly by simp
  next
    fix j assume "(0::nat) < 0"
    then show "sc (ys ! ((0 - 1) div 2)) \<le> sc (ys ! j)" by simp
  qed
  then show "hp sc rest" unfolding rest by (rule sift_down_hp)
qed

lemma hp_cong: "(\<And>x. x \<in> set xs \<Longrightarrow> sc x = sc' x) \<Longrightarrow> hp sc xs = hp sc' xs"
proof -
  assume eq: "\<And>x. x \<in> set xs \<Longrightarrow> sc x = sc' x"
  have "sc (xs ! j) = sc' (xs ! j)" if "j < length xs" for j
    using eq that by simp
  moreover have "(j - 1) div 2 < length xs" if "j < length xs" "0 < j" for j
    using parent_less[of j] that by simp
  ultimately show ?thesis unfolding hp_def by auto
qed

lemma hp_Nil: "hp sc []"
  by (simp add: hp_def)

subsection \<open>getRange computes the cells within the budget\<close>

lemma nkey_append: "i < length ns \<Longrightarrow> nkey (ns @ ys) i = nkey ns i"
  by (simp add: nkey_def nth_append)

lemma nkey_last: "nkey (ns @ [nd]) (length ns) = getKey (hex nd)"
  by (simp add: nkey_def)

lemma Node_fields:
  "hex (Node n p g (Some 0)) = n" "parent (Node n p g (Some 0)) = p"
  "G (Node n p g (Some 0)) = g" "F (Node n p g (Some 0)) = g"
  "hex (Node n p g None) = n" "G (Node n p g None) = g" "F (Node n p g None) = g"
  by (simp_all add: Node_def rescore_def)

lemma in_case:
  "(h \<in> set (case getHexAt g (d::axial) of Some h' \<Rightarrow> [h'] | None \<Rightarrow> [])) = (getHexAt g d = Some h)"
  by (cases "getHexAt g d") auto

lemma in_getNeighbors:
  "(h \<in> set (getNeighbors g x)) = (\<exists>d\<in>set (directions x). getHexAt g d = Some h)"
  unfolding getNeighbors_def set_concat set_map by (simp only: UN_iff image_iff in_case bex_simps)

lemma neighbor_in_grid: "h \<in> set (getNeighbors g x) \<Longrightarrow> h \<in> set (hexes g)"
proof -
  assume "h \<in> set (getNeighbors g x)"
  then obtain d :: axial where d: "getHexAt g d = Some h"
    unfolding in_getNeighbors by (elim bexE)
  show ?thesis using getHexAt_Some[OF d] by (rule conjunct2)
qed

lemma neighbor_canonical:
  "h \<in> set (getNeighbors g x) \<Longrightarrow> find (\<lambda>h'. getKey h' = getKey h) (hexes g) = Some h"
proof -
  assume "h \<in> set (getNeighbors g x)"
  then obtain d :: axial where d: "getHexAt g d = Some h"
    unfolding in_getNeighbors by (elim bexE)
  have "compareTo h d" using getHexAt_Some[OF d] by (rule conjunct1)
  then have "find (\<lambda>h'. getKey h' = getKey h) (hexes g) = find (\<lambda>h'. compareTo h' d) (hexes g)"
    by (intro find_cong) (auto simp: compareTo_def getKey_def)
  then show ?thesis using d unfolding getHexAt_def by simp
qed

lemma neighbor_same_key:
  "h1 \<in> set (getNeighbors g x) \<Longrightarrow> h2 \<in> set (getNeighbors g y) \<Longrightarrow> getKey h1 = getKey h2 \<Longrightarrow> h1 = h2"
proof -
  assume 1: "h1 \<in> set (getNeighbors g x)" and 2: "h2 \<in> set (getNeighbors g y)"
    and 3: "getKey h1 = getKey h2"
  have "find (\<lambda>h'. getKey h' = getKey h2) (hexes g) = Some h1"
    using neighbor_canonical[OF 1] unfolding 3 .
  moreover have "find (\<lambda>h'. getKey h' = getKey h2) (hexes g) = Some h2"
    using neighbor_canonical[OF 2] .
  ultimately show "h1 = h2" by simp
qed

lemma getNeighbors_key_cong: "getKey x = getKey y \<Longrightarrow> getNeighbors g x = getNeighbors g y"
  by (simp add: getNeighbors_def directions_def getKey_def)

lemma closed_at_mono:
  "closed_at m ns c n \<Longrightarrow> c < length ns \<Longrightarrow> closed_at m (ns @ ys) c n"
  unfolding closed_at_def
  by (auto simp: nth_append nkey_def)

lemma closure_mono:
  assumes "closure g m ns cl ex" "nkey (ns @ [nd]) (length ns) \<notin> cl"
  shows "closure g m (ns @ [nd]) cl ex"
  unfolding closure_def
proof (intro allI impI ballI)
  fix c n
  assume c: "c < length (ns @ [nd])" "nkey (ns @ [nd]) c \<in> cl" "c \<notin> ex"
    and n: "n \<in> set (getNeighbors g (hex ((ns @ [nd]) ! c)))"
  have "c \<noteq> length ns" using c(2) assms(2) by auto
  then have c': "c < length ns" using c by simp
  then have "closed_at m ns c n" using assms(1) c n unfolding closure_def
    by (simp add: nkey_append nth_append)
  then show "closed_at m (ns @ [nd]) c n" using c' by (rule closed_at_mono)
qed

lemma visited_Some:
  assumes "base_visited ns vs" "map_of vs k = Some v"
  shows "0 < v" "v < length ns" "nkey ns v = k"
proof -
  have "(k, v) \<in> set vs" using assms(2) by (rule map_of_SomeD)
  then have "(k, v) \<in> (\<lambda>i. (nkey ns i, i)) ` {1..<length ns}"
    using assms(1) unfolding base_visited_def by simp
  then show "0 < v" "v < length ns" "nkey ns v = k" by auto
qed

lemma visited_None:
  assumes "base_visited ns vs" "map_of vs k = None" "0 < i" "i < length ns"
  shows "nkey ns i \<noteq> k"
proof
  assume "nkey ns i = k"
  then have "(k, i) \<in> set vs" using assms(1,3,4) unfolding base_visited_def by auto
  then have "k \<in> fst ` set vs" by force
  then show False using assms(2) by (simp add: map_of_eq_None_iff)
qed

lemma keys_image: "set (map (\<lambda>n. getKey (hex n)) ns) = nkey ns ` {..<length ns}"
proof -
  have "set ns = (\<lambda>i. ns ! i) ` {..<length ns}"
    by (auto simp: in_set_conv_nth)
  then have "set (map (\<lambda>n. getKey (hex n)) ns)
      = (\<lambda>n. getKey (hex n)) ` (\<lambda>i. ns ! i) ` {..<length ns}"
    by simp
  then show ?thesis by (simp add: image_image nkey_def[abs_def])
qed

lemma push_nodes:
  assumes b: "base_nodes g a m ns cl"
    and c: "c < length ns" "nkey ns c \<in> cl"
    and n: "n \<in> set (getNeighbors g (hex (ns ! c)))" "\<not> blocked n" "G (ns ! c) + cost n \<le> m"
    and fresh: "\<forall>i<length ns. nkey ns i \<noteq> getKey n"
  shows "base_nodes g a m (ns @ [Node n (Some c) (G (ns ! c) + cost n) (Some 0)]) cl"
proof -
  let ?nd = "Node n (Some c) (G (ns ! c) + cost n) (Some 0)"
  let ?ns = "ns @ [?nd]"
  have ne: "ns \<noteq> []" and h0: "hex (ns ! 0) = a" and g0: "G (ns ! 0) = 0"
    and d: "distinct (map (\<lambda>n. getKey (hex n)) ns)"
    and fg: "\<forall>i<length ns. F (ns ! i) = G (ns ! i)"
    and par: "\<forall>i<length ns. 0 < i \<longrightarrow>
         (\<exists>p<i. parent (ns ! i) = Some p \<and> nkey ns p \<in> cl \<and>
            hex (ns ! i) \<in> set (getNeighbors g (hex (ns ! p))) \<and> \<not> blocked (hex (ns ! i)) \<and>
            G (ns ! i) = G (ns ! p) + cost (hex (ns ! i)) \<and> G (ns ! i) \<le> m)"
    and sub: "cl \<subseteq> nkey ns ` {..<length ns}"
    using b unfolding base_nodes_def by blast+
  have 1: "?ns \<noteq> []" by simp
  have 2: "hex (?ns ! 0) = a" "G (?ns ! 0) = 0" using ne h0 g0 by (simp_all add: nth_append)
  have "getKey n \<notin> set (map (\<lambda>n. getKey (hex n)) ns)"
    unfolding keys_image using fresh by auto
  then have 3: "distinct (map (\<lambda>n. getKey (hex n)) ?ns)" using d by (simp add: Node_fields)
  have 4: "\<forall>i<length ?ns. F (?ns ! i) = G (?ns ! i)"
  proof (intro allI impI)
    fix i assume "i < length ?ns"
    then consider "i < length ns" | "i = length ns" by force
    then show "F (?ns ! i) = G (?ns ! i)"
      by cases (use fg in \<open>simp_all add: nth_append Node_fields\<close>)
  qed
  have 5: "\<exists>p<i. parent (?ns ! i) = Some p \<and> nkey ?ns p \<in> cl \<and>
            hex (?ns ! i) \<in> set (getNeighbors g (hex (?ns ! p))) \<and> \<not> blocked (hex (?ns ! i)) \<and>
            G (?ns ! i) = G (?ns ! p) + cost (hex (?ns ! i)) \<and> G (?ns ! i) \<le> m"
    if i: "i < length ?ns" "0 < i" for i
  proof -
    consider "i < length ns" | "i = length ns" using i by force
    then show ?thesis
    proof cases
      case 1
      then obtain p where p: "p < i" "parent (ns ! i) = Some p" "nkey ns p \<in> cl"
          "hex (ns ! i) \<in> set (getNeighbors g (hex (ns ! p)))" "\<not> blocked (hex (ns ! i))"
          "G (ns ! i) = G (ns ! p) + cost (hex (ns ! i))" "G (ns ! i) \<le> m"
        using par i by blast
      have pl: "p < length ns" using p(1) 1 by simp
      show ?thesis
        by (rule exI[of _ p]) (use p pl 1 in \<open>simp add: nth_append nkey_append\<close>)
    next
      case 2
      show ?thesis
        by (rule exI[of _ c]) (use 2 c n in \<open>simp add: nth_append nkey_append Node_fields\<close>)
    qed
  qed
  have 6: "cl \<subseteq> nkey ?ns ` {..<length ?ns}"
  proof
    fix k assume "k \<in> cl"
    then obtain i where "i < length ns" "k = nkey ns i" using sub by auto
    then have "i < length ?ns" "k = nkey ?ns i" by (simp_all add: nkey_append)
    then show "k \<in> nkey ?ns ` {..<length ?ns}" by blast
  qed
  show ?thesis unfolding base_nodes_def using 1 2 3 4 5 6 by blast
qed

lemma push_heap:
  assumes b: "base_heap ns cl h" and fresh: "getKey (hex nd) \<notin> cl"
  shows "base_heap (ns @ [nd]) cl (heap_push (score (ns @ [nd])) h (length ns))"
proof -
  let ?ns = "ns @ [nd]"
  let ?h = "heap_push (score ?ns) h (length ns)"
  have d: "distinct h" and st: "set h = {i. i < length ns \<and> nkey ns i \<notin> cl}"
    and hp: "hp (score ns) h"
    using b unfolding base_heap_def by blast+
  have ms: "mset ?h = mset (length ns # h)" by (simp add: heap_push_mset)
  have "length ns \<notin> set h" using st by simp
  then have "distinct (length ns # h)" using d by simp
  then have 1: "distinct ?h" using mset_eq_imp_distinct_iff[OF ms] by simp
  have "set ?h = set (length ns # h)" using ms by (rule mset_eq_setD)
  also have "\<dots> = {i. i < length ?ns \<and> nkey ?ns i \<notin> cl}"
  proof -
    have "nkey ?ns (length ns) \<notin> cl" using fresh by (simp add: nkey_last)
    moreover have "\<And>i. i < length ns \<Longrightarrow> nkey ?ns i = nkey ns i" by (simp add: nkey_append)
    ultimately show ?thesis using st by (auto simp: less_Suc_eq)
  qed
  finally have 2: "set ?h = {i. i < length ?ns \<and> nkey ?ns i \<notin> cl}" .
  have "\<And>x. x \<in> set h \<Longrightarrow> score ns x = score ?ns x"
    using st by (simp add: score_def nth_append)
  then have "hp (score ?ns) h" using hp hp_cong[of h "score ns" "score ?ns"] by simp
  then have 3: "hp (score ?ns) ?h" by (rule heap_push_hp)
  show ?thesis unfolding base_heap_def using 1 2 3 by blast
qed

lemma push_visited:
  assumes "base_visited ns vs" "ns \<noteq> []"
  shows "base_visited (ns @ [nd]) (vs @ [(getKey (hex nd), length ns)])"
proof -
  have "[1..<length (ns @ [nd])] = [1..<length ns] @ [length ns]"
    using assms(2) by (simp add: Suc_leI)
  moreover have "map (\<lambda>i. (nkey (ns @ [nd]) i, i)) [1..<length ns] = map (\<lambda>i. (nkey ns i, i)) [1..<length ns]"
    by (rule map_cong) (simp_all add: nkey_append)
  ultimately show ?thesis using assms(1) unfolding base_visited_def by (simp add: nkey_last)
qed

lemma push_order:
  assumes "order_inner ns cl c" "G (ns ! c) \<le> G nd" "getKey (hex nd) \<notin> cl"
  shows "order_inner (ns @ [nd]) cl c"
proof -
  let ?ns = "ns @ [nd]"
  have c: "c < length ns" "nkey ns c \<in> cl" "nkey ns 0 \<in> cl"
    and le: "\<forall>i<length ns. nkey ns i \<in> cl \<longrightarrow> G (ns ! i) \<le> G (ns ! c)"
    and ge: "\<forall>i<length ns. nkey ns i \<notin> cl \<longrightarrow> G (ns ! c) \<le> G (ns ! i)"
    using assms(1) unfolding order_inner_def by blast+
  have ne: "0 < length ns" using c(1) by (cases ns) simp_all
  have 1: "c < length ?ns" "nkey ?ns c \<in> cl" "nkey ?ns 0 \<in> cl"
    using c ne by (simp_all add: nkey_append)
  have last: "nkey ?ns (length ns) \<notin> cl" using assms(3) by (simp add: nkey_last)
  have 2: "\<forall>i<length ?ns. nkey ?ns i \<in> cl \<longrightarrow> G (?ns ! i) \<le> G (?ns ! c)"
  proof (intro allI impI)
    fix i assume i: "i < length ?ns" "nkey ?ns i \<in> cl"
    then have "i \<noteq> length ns" using last by auto
    then have "i < length ns" using i by simp
    then show "G (?ns ! i) \<le> G (?ns ! c)" using le i c by (simp add: nkey_append nth_append)
  qed
  have 3: "\<forall>i<length ?ns. nkey ?ns i \<notin> cl \<longrightarrow> G (?ns ! c) \<le> G (?ns ! i)"
  proof (intro allI impI)
    fix i assume i: "i < length ?ns" "nkey ?ns i \<notin> cl"
    then consider "i < length ns" | "i = length ns" by force
    then show "G (?ns ! c) \<le> G (?ns ! i)"
    proof cases
      case 1
      then show ?thesis using ge i c by (simp add: nkey_append nth_append)
    next
      case 2
      then show ?thesis using assms(2) c by (simp add: nth_append)
    qed
  qed
  show ?thesis unfolding order_inner_def using 1 2 3 by blast
qed


lemma range_neighbor_inner:
  assumes J: "range_inner g a m c s"
    and n: "n \<in> set (getNeighbors g (hex (nodes s ! c)))"
    and pos: "\<forall>h\<in>set (hexes g). 0 \<le> cost h"
  shows "range_inner g a m c (range_neighbor m c n s) \<and>
         closedHexes (range_neighbor m c n s) = closedHexes s \<and>
         (\<exists>ys. nodes (range_neighbor m c n s) = nodes s @ ys) \<and>
         closed_at m (nodes (range_neighbor m c n s)) c n"
proof -
  define ns where "ns = nodes s"
  define cl where "cl = closedHexes s"
  have bn: "base_nodes g a m ns cl" and bh: "base_heap ns cl (openHeap s)"
    and bv: "base_visited ns (visitedNodes s)"
    and ord: "order_inner ns cl c" and clo: "closure g m ns cl {c}"
    using J unfolding range_inner_def range_base_def ns_def cl_def by blast+
  have c: "c < length ns" "nkey ns c \<in> cl" "nkey ns 0 \<in> cl"
    and le: "\<And>i. i < length ns \<Longrightarrow> nkey ns i \<in> cl \<Longrightarrow> G (ns ! i) \<le> G (ns ! c)"
    using ord unfolding order_inner_def by blast+
  have ne: "ns \<noteq> []" and sub: "cl \<subseteq> nkey ns ` {..<length ns}"
    and par: "\<And>i. i < length ns \<Longrightarrow> 0 < i \<Longrightarrow>
         (\<exists>p<i. parent (ns ! i) = Some p \<and> nkey ns p \<in> cl \<and>
            hex (ns ! i) \<in> set (getNeighbors g (hex (ns ! p))) \<and> \<not> blocked (hex (ns ! i)) \<and>
            G (ns ! i) = G (ns ! p) + cost (hex (ns ! i)) \<and> G (ns ! i) \<le> m)"
    using bn unfolding base_nodes_def by blast+
  have n': "n \<in> set (getNeighbors g (hex (ns ! c)))" using n by (simp add: ns_def)
  have cn: "0 \<le> cost n" using pos neighbor_in_grid[OF n] by blast
  define gg where "gg = G (ns ! c) + cost n"
  have same: "range_inner g a m c s \<and> closedHexes s = closedHexes s \<and>
         (\<exists>ys. nodes s = nodes s @ ys) \<and> closed_at m (nodes s) c n"
    if "closed_at m ns c n"
    using that J by (simp add: ns_def)
  show ?thesis
  proof (cases "blocked n \<or> getKey n \<in> cl")
    case True
    then have eq: "range_neighbor m c n s = s" by (auto simp: range_neighbor_def cl_def)
    have "closed_at m ns c n"
    proof (cases "blocked n")
      case True
      then show ?thesis by (simp add: closed_at_def)
    next
      case False
      then have "getKey n \<in> cl" using True by simp
      then obtain j where j: "j < length ns" "nkey ns j = getKey n" using sub by auto
      then have "G (ns ! j) \<le> G (ns ! c)" using le \<open>getKey n \<in> cl\<close> by simp
      then have "G (ns ! j) \<le> G (ns ! c) + cost n" using cn by simp
      then show ?thesis unfolding closed_at_def using j by blast
    qed
    then show ?thesis unfolding eq by (rule same)
  next
    case opn: False
    show ?thesis
    proof (cases "gg \<le> m")
      case False
      then have eq: "range_neighbor m c n s = s"
        using opn by (simp add: range_neighbor_def cl_def gg_def ns_def Let_def)
      have "closed_at m ns c n" using False by (simp add: closed_at_def gg_def)
      then show ?thesis unfolding eq by (rule same)
    next
      case gm: True
      show ?thesis
      proof (cases "map_of (visitedNodes s) (getKey n)")
        case (Some v)
        have v: "0 < v" "v < length ns" "nkey ns v = getKey n"
          using visited_Some[OF bv Some] by simp_all
        obtain p where p: "p < v" "nkey ns p \<in> cl"
            "hex (ns ! v) \<in> set (getNeighbors g (hex (ns ! p)))"
            "G (ns ! v) = G (ns ! p) + cost (hex (ns ! v))"
          using par[OF v(2,1)] by blast
        have "getKey (hex (ns ! v)) = getKey n" using v(3) by (simp add: nkey_def)
        then have hv: "hex (ns ! v) = n" using neighbor_same_key[OF p(3) n'] by simp
        have "G (ns ! p) \<le> G (ns ! c)" using le[of p] p(1,2) v(2) by simp
        then have gv: "G (ns ! v) \<le> gg" unfolding gg_def p(4) hv by simp
        then have eq: "range_neighbor m c n s = s"
          using opn gm Some by (simp add: range_neighbor_def cl_def gg_def ns_def Let_def)
        have "closed_at m ns c n" unfolding closed_at_def using v gv gg_def by blast
        then show ?thesis unfolding eq by (rule same)
      next
        case None
        define nd where "nd = Node n (Some c) gg (Some 0)"
        define s' where "s' = s\<lparr>nodes := ns @ [nd],
             visitedNodes := visitedNodes s @ [(getKey n, length ns)],
             openHeap := heap_push (score (ns @ [nd])) (openHeap s) (length ns)\<rparr>"
        have eq: "range_neighbor m c n s = s'"
          using opn gm None
          by (simp add: range_neighbor_def cl_def gg_def ns_def Let_def s'_def nd_def)
        have fresh: "\<forall>i<length ns. nkey ns i \<noteq> getKey n"
        proof (intro allI impI)
          fix i assume i: "i < length ns"
          show "nkey ns i \<noteq> getKey n"
          proof (cases "i = 0")
            case True
            then show ?thesis using c(3) opn by auto
          next
            case False
            then show ?thesis using visited_None[OF bv None _ i] by simp
          qed
        qed
        have hnd: "hex nd = n" "G nd = gg" by (simp_all add: nd_def Node_fields)
        have kn: "getKey (hex nd) \<notin> cl" using opn hnd by simp
        have 1: "base_nodes g a m (ns @ [nd]) cl"
          unfolding nd_def gg_def using push_nodes[OF bn c(1,2) n' _ _ fresh] opn gm
          by (simp add: gg_def)
        have 2: "base_heap (ns @ [nd]) cl (heap_push (score (ns @ [nd])) (openHeap s) (length ns))"
          using push_heap[OF bh kn] .
        have 3: "base_visited (ns @ [nd]) (visitedNodes s @ [(getKey n, length ns)])"
          using push_visited[OF bv ne, of nd] hnd by simp
        have 4: "order_inner (ns @ [nd]) cl c"
          using push_order[OF ord _ kn] hnd cn by (simp add: gg_def)
        have 5: "closure g m (ns @ [nd]) cl {c}"
          using closure_mono[OF clo] kn by (simp add: nkey_last)
        have 6: "closed_at m (ns @ [nd]) c n"
          unfolding closed_at_def
        proof (intro impI)
          have "nkey (ns @ [nd]) (length ns) = getKey n" using hnd by (simp add: nkey_last)
          moreover have "G ((ns @ [nd]) ! length ns) \<le> G ((ns @ [nd]) ! c) + cost n"
            using c(1) hnd by (simp add: nth_append gg_def)
          ultimately show "\<exists>j<length (ns @ [nd]). nkey (ns @ [nd]) j = getKey n \<and>
              G ((ns @ [nd]) ! j) \<le> G ((ns @ [nd]) ! c) + cost n"
            by (intro exI[of _ "length ns"]) simp
        qed
        have "range_inner g a m c s'"
          unfolding range_inner_def range_base_def using 1 2 3 4 5
          by (simp add: s'_def cl_def)
        moreover have "closedHexes s' = closedHexes s" by (simp add: s'_def)
        moreover have "\<exists>ys. nodes s' = nodes s @ ys" by (simp add: s'_def ns_def)
        moreover have "closed_at m (nodes s') c n" using 6 by (simp add: s'_def)
        ultimately show ?thesis unfolding eq by blast
      qed
    qed
  qed
qed

lemma range_fold_inner:
  assumes pos: "\<forall>h\<in>set (hexes g). 0 \<le> cost h"
  shows "range_inner g a m c s \<Longrightarrow> set xs \<subseteq> set (getNeighbors g (hex (nodes s ! c))) \<Longrightarrow>
     range_inner g a m c (fold (range_neighbor m c) xs s) \<and>
     closedHexes (fold (range_neighbor m c) xs s) = closedHexes s \<and>
     (\<exists>ys. nodes (fold (range_neighbor m c) xs s) = nodes s @ ys) \<and>
     (\<forall>n\<in>set xs. closed_at m (nodes (fold (range_neighbor m c) xs s)) c n)"
proof (induction xs arbitrary: s)
  case Nil
  then show ?case by simp
next
  case (Cons n xs)
  define s1 where "s1 = range_neighbor m c n s"
  have n: "n \<in> set (getNeighbors g (hex (nodes s ! c)))" using Cons(3) by simp
  have st: "range_inner g a m c s1" "closedHexes s1 = closedHexes s"
      "\<exists>ys. nodes s1 = nodes s @ ys" "closed_at m (nodes s1) c n"
    using range_neighbor_inner[OF Cons(2) n pos] by (simp_all add: s1_def)
  have c: "c < length (nodes s)" using Cons(2) unfolding range_inner_def order_inner_def by blast
  obtain ys where ys: "nodes s1 = nodes s @ ys" using st(3) by blast
  have hc: "hex (nodes s1 ! c) = hex (nodes s ! c)" using ys c by (simp add: nth_append)
  have sub: "set xs \<subseteq> set (getNeighbors g (hex (nodes s1 ! c)))" using Cons(3) hc by simp
  define s2 where "s2 = fold (range_neighbor m c) xs s1"
  have ih: "range_inner g a m c s2" "closedHexes s2 = closedHexes s1"
      "\<exists>ys. nodes s2 = nodes s1 @ ys" "\<forall>n\<in>set xs. closed_at m (nodes s2) c n"
    using Cons(1)[OF st(1) sub] by (simp_all add: s2_def)
  obtain zs where zs: "nodes s2 = nodes s1 @ zs" using ih(3) by blast
  have c1: "c < length (nodes s1)" using ys c by simp
  have "closed_at m (nodes s2) c n" unfolding zs using st(4) c1 by (rule closed_at_mono)
  moreover have "nodes s2 = nodes s @ (ys @ zs)" using ys zs by simp
  ultimately show ?case using ih st(2) by (simp add: s2_def s1_def)
qed


lemma nkey_inj:
  assumes "distinct (map (\<lambda>n. getKey (hex n)) ns)" "i < length ns" "j < length ns"
  shows "(nkey ns i = nkey ns j) = (i = j)"
proof -
  have "nkey ns i = map (\<lambda>n. getKey (hex n)) ns ! i" "nkey ns j = map (\<lambda>n. getKey (hex n)) ns ! j"
    using assms(2,3) by (simp_all add: nkey_def)
  then show ?thesis using nth_eq_iff_index_eq[OF assms(1), of i j] assms(2,3) by simp
qed

lemma range_pop_inner:
  assumes I: "range_inv g a m s"
    and pop: "heap_pop (score (nodes s)) (openHeap s) = Some (c, rest)"
  shows "range_inner g a m c
           (s\<lparr>openHeap := rest, closedHexes := insert (nkey (nodes s) c) (closedHexes s)\<rparr>)"
    and "c < length (nodes s)" and "nkey (nodes s) c \<notin> closedHexes s"
proof -
  define ns where "ns = nodes s"
  define cl where "cl = closedHexes s"
  define h where "h = openHeap s"
  define cl' where "cl' = insert (nkey ns c) cl"
  have bn: "base_nodes g a m ns cl" and bh: "base_heap ns cl h"
    and bv: "base_visited ns (visitedNodes s)"
    and first: "nkey ns 0 \<in> cl \<or> length ns = 1"
    and ordr: "\<And>i j. i < length ns \<Longrightarrow> j < length ns \<Longrightarrow> nkey ns i \<in> cl \<Longrightarrow> nkey ns j \<notin> cl
        \<Longrightarrow> G (ns ! i) \<le> G (ns ! j)"
    and clo: "closure g m ns cl {}"
    using I unfolding range_inv_def range_base_def ns_def cl_def h_def by blast+
  have dk: "distinct (map (\<lambda>n. getKey (hex n)) ns)"
    and fg: "\<And>i. i < length ns \<Longrightarrow> F (ns ! i) = G (ns ! i)"
    and sub: "cl \<subseteq> nkey ns ` {..<length ns}"
    and par: "\<And>i. i < length ns \<Longrightarrow> 0 < i \<Longrightarrow>
         (\<exists>p<i. parent (ns ! i) = Some p \<and> nkey ns p \<in> cl \<and>
            hex (ns ! i) \<in> set (getNeighbors g (hex (ns ! p))) \<and> \<not> blocked (hex (ns ! i)) \<and>
            G (ns ! i) = G (ns ! p) + cost (hex (ns ! i)) \<and> G (ns ! i) \<le> m)"
    using bn unfolding base_nodes_def by blast+
  have dh: "distinct h" and sh: "set h = {i. i < length ns \<and> nkey ns i \<notin> cl}"
    and hph: "hp (score ns) h"
    using bh unfolding base_heap_def by blast+
  have pop': "heap_pop (score ns) h = Some (c, rest)" using pop by (simp add: ns_def h_def)
  have hpr: "hp (score ns) rest" and ms: "mset h = add_mset c (mset rest)"
    and mn: "\<forall>y\<in>set h. score ns c \<le> score ns y"
    using heap_pop_Some[OF pop' hph] by blast+
  have "c \<in> set h" using ms by (metis mset_eq_setD list.set_intros(1) mset.simps(2))
  then have c: "c < length ns" "nkey ns c \<notin> cl" using sh by auto
  show "c < length (nodes s)" "nkey (nodes s) c \<notin> closedHexes s"
    using c by (simp_all add: ns_def cl_def)
  have ms': "mset h = mset (c # rest)" using ms by simp
  have "distinct (c # rest)" using mset_eq_imp_distinct_iff[OF ms'] dh by simp
  then have dr: "distinct rest" "c \<notin> set rest" by simp_all
  have "set h = set (c # rest)" using ms' by (rule mset_eq_setD)
  then have sr: "set rest = set h - {c}" using dr by auto
  have inj: "\<And>i. i < length ns \<Longrightarrow> (nkey ns i = nkey ns c) = (i = c)"
    using nkey_inj[OF dk _ c(1)] by simp
  have mem: "\<And>i. i < length ns \<Longrightarrow> (nkey ns i \<in> cl') = (i = c \<or> nkey ns i \<in> cl)"
    using inj by (auto simp: cl'_def)
  have 1: "base_nodes g a m ns cl'"
  proof -
    have "cl' \<subseteq> nkey ns ` {..<length ns}" using sub c(1) by (auto simp: cl'_def)
    moreover have "\<exists>p<i. parent (ns ! i) = Some p \<and> nkey ns p \<in> cl' \<and>
            hex (ns ! i) \<in> set (getNeighbors g (hex (ns ! p))) \<and> \<not> blocked (hex (ns ! i)) \<and>
            G (ns ! i) = G (ns ! p) + cost (hex (ns ! i)) \<and> G (ns ! i) \<le> m"
      if "i < length ns" "0 < i" for i
      using par[OF that] by (auto simp: cl'_def)
    ultimately show ?thesis using bn unfolding base_nodes_def by blast
  qed
  have 2: "base_heap ns cl' rest"
  proof -
    have "set rest = {i. i < length ns \<and> nkey ns i \<notin> cl'}"
      unfolding sr sh using mem by auto
    then show ?thesis unfolding base_heap_def using dr(1) hpr by blast
  qed
  have 3: "order_inner ns cl' c"
  proof -
    have z: "nkey ns 0 \<in> cl'"
    proof (cases "nkey ns 0 \<in> cl")
      case True
      then show ?thesis by (simp add: cl'_def)
    next
      case False
      then have "length ns = 1" using first by simp
      then have "c = 0" using c(1) by simp
      then show ?thesis by (simp add: cl'_def)
    qed
    have le: "G (ns ! i) \<le> G (ns ! c)" if "i < length ns" "nkey ns i \<in> cl'" for i
    proof (cases "i = c")
      case True
      then show ?thesis by simp
    next
      case False
      then have "nkey ns i \<in> cl" using that mem by simp
      then show ?thesis using ordr[OF that(1) c(1) _ c(2)] by simp
    qed
    have ge: "G (ns ! c) \<le> G (ns ! i)" if "i < length ns" "nkey ns i \<notin> cl'" for i
    proof -
      have "nkey ns i \<notin> cl" using that mem by simp
      then have "i \<in> set h" using sh that by simp
      then have "score ns c \<le> score ns i" using mn by simp
      then show ?thesis using fg[OF that(1)] fg[OF c(1)] by (simp add: score_def)
    qed
    show ?thesis unfolding order_inner_def using c(1) z le ge by (simp add: cl'_def)
  qed
  have 4: "closure g m ns cl' {c}"
    unfolding closure_def
  proof (intro allI impI ballI)
    fix c' n
    assume c': "c' < length ns" "nkey ns c' \<in> cl'" "c' \<notin> {c}"
      and n: "n \<in> set (getNeighbors g (hex (ns ! c')))"
    have "nkey ns c' \<in> cl" using c' mem by simp
    then show "closed_at m ns c' n" using clo c' n unfolding closure_def by simp
  qed
  show "range_inner g a m c
           (s\<lparr>openHeap := rest, closedHexes := insert (nkey (nodes s) c) (closedHexes s)\<rparr>)"
    unfolding range_inner_def range_base_def using 1 2 3 4 bv
    by (simp add: ns_def cl_def cl'_def)
qed

lemma range_step_inv:
  assumes pos: "\<forall>h\<in>set (hexes g). 0 \<le> cost h"
    and I: "range_inv g a m s" and ne: "openHeap s \<noteq> []"
  shows "range_inv g a m (range_step g m s)"
    and "\<exists>k. k \<notin> closedHexes s \<and> k \<in> insert (getKey a) (getKey ` set (hexes g)) \<and>
           closedHexes (range_step g m s) = insert k (closedHexes s)"
proof -
  obtain c rest where pop: "heap_pop (score (nodes s)) (openHeap s) = Some (c, rest)"
    using ne heap_pop_None[of "score (nodes s)" "openHeap s"] by (cases "heap_pop (score (nodes s)) (openHeap s)") auto
  define s1 where "s1 = s\<lparr>openHeap := rest, closedHexes := insert (nkey (nodes s) c) (closedHexes s)\<rparr>"
  define s' where "s' = fold (range_neighbor m c) (getNeighbors g (hex (nodes s ! c))) s1"
  have eq: "range_step g m s = s'"
    using pop by (simp add: range_step_def s'_def s1_def nkey_def Let_def)
  have J1: "range_inner g a m c s1" and c: "c < length (nodes s)" "nkey (nodes s) c \<notin> closedHexes s"
    using range_pop_inner[OF I pop] by (simp_all add: s1_def)
  have n1: "nodes s1 = nodes s" by (simp add: s1_def)
  have "set (getNeighbors g (hex (nodes s ! c))) \<subseteq> set (getNeighbors g (hex (nodes s1 ! c)))"
    by (simp add: n1)
  from range_fold_inner[OF pos J1 this]
  have J: "range_inner g a m c s'" and cl: "closedHexes s' = closedHexes s1"
    and ext: "\<exists>ys. nodes s' = nodes s @ ys"
    and nbs: "\<forall>n\<in>set (getNeighbors g (hex (nodes s ! c))). closed_at m (nodes s') c n"
    by (simp_all add: s'_def n1)
  obtain ys where ys: "nodes s' = nodes s @ ys" using ext by blast
  have hc: "hex (nodes s' ! c) = hex (nodes s ! c)" using ys c by (simp add: nth_append)
  have b: "range_base g a m s'" and ord: "order_inner (nodes s') (closedHexes s') c"
    and clo: "closure g m (nodes s') (closedHexes s') {c}"
    using J unfolding range_inner_def by blast+
  have o: "nkey (nodes s') 0 \<in> closedHexes s'"
    "\<And>i. i < length (nodes s') \<Longrightarrow> nkey (nodes s') i \<in> closedHexes s' \<Longrightarrow> G (nodes s' ! i) \<le> G (nodes s' ! c)"
    "\<And>i. i < length (nodes s') \<Longrightarrow> nkey (nodes s') i \<notin> closedHexes s' \<Longrightarrow> G (nodes s' ! c) \<le> G (nodes s' ! i)"
    using ord unfolding order_inner_def by blast+
  have order: "\<forall>i<length (nodes s'). \<forall>j<length (nodes s').
         nkey (nodes s') i \<in> closedHexes s' \<longrightarrow> nkey (nodes s') j \<notin> closedHexes s' \<longrightarrow>
         G (nodes s' ! i) \<le> G (nodes s' ! j)"
    using o(2,3) by (meson order_trans)
  have clo': "closure g m (nodes s') (closedHexes s') {}"
    unfolding closure_def
  proof (intro allI impI ballI)
    fix c' n
    assume c': "c' < length (nodes s')" "nkey (nodes s') c' \<in> closedHexes s'"
      and n: "n \<in> set (getNeighbors g (hex (nodes s' ! c')))"
    show "closed_at m (nodes s') c' n"
    proof (cases "c' = c")
      case True
      then show ?thesis using nbs n hc by simp
    next
      case False
      then show ?thesis using clo c' n unfolding closure_def by simp
    qed
  qed
  show "range_inv g a m (range_step g m s)"
    unfolding eq range_inv_def using b o(1) order clo' by blast
  have bn: "base_nodes g a m (nodes s) (closedHexes s)"
    using I unfolding range_inv_def range_base_def by blast
  have "nkey (nodes s) c \<in> insert (getKey a) (getKey ` set (hexes g))"
  proof (cases "c = 0")
    case True
    then show ?thesis using bn unfolding base_nodes_def by (simp add: nkey_def)
  next
    case False
    then obtain p where "hex (nodes s ! c) \<in> set (getNeighbors g (hex (nodes s ! p)))"
      using bn c(1) unfolding base_nodes_def by blast
    then have "hex (nodes s ! c) \<in> set (hexes g)" by (rule neighbor_in_grid)
    then show ?thesis by (simp add: nkey_def)
  qed
  moreover have "closedHexes (range_step g m s) = insert (nkey (nodes s) c) (closedHexes s)"
    unfolding eq cl by (simp add: s1_def)
  ultimately show "\<exists>k. k \<notin> closedHexes s \<and> k \<in> insert (getKey a) (getKey ` set (hexes g)) \<and>
           closedHexes (range_step g m s) = insert k (closedHexes s)"
    using c(2) by blast
qed

lemma sift_up_single: "sift_up sc [v] 0 = [v]"
  by (subst sift_up.simps) simp

lemma range_init_inv: "range_inv g a m (range_init a)"
proof -
  define ns where "ns = [Node a None 0 None]"
  have h: "heap_push (score ns) [] 0 = [0]" by (simp add: heap_push_def sift_up_single)
  have s: "range_init a = \<lparr>nodes = ns, openHeap = [0], closedHexes = {}, visitedNodes = []\<rparr>"
    by (simp add: range_init_def Let_def ns_def[symmetric] h)
  have 1: "base_nodes g a m ns {}"
    unfolding base_nodes_def by (simp add: ns_def Node_fields)
  have 2: "base_heap ns {} [0]"
    unfolding base_heap_def by (auto simp: ns_def hp_def)
  have 3: "base_visited ns []" by (simp add: base_visited_def ns_def)
  have 4: "closure g m ns {} {}" by (simp add: closure_def)
  show ?thesis unfolding s range_inv_def range_base_def using 1 2 3 4 by (simp add: ns_def)
qed

lemma range_loop_result:
  assumes pos: "\<forall>h\<in>set (hexes g). 0 \<le> cost h"
  shows "\<exists>t. while_option (\<lambda>s. openHeap s \<noteq> []) (range_step g m) (range_init a) = Some t \<and>
             range_inv g a m t \<and> openHeap t = []"
proof -
  define U where "U = insert (getKey a) (getKey ` set (hexes g))"
  have fin: "finite U" by (simp add: U_def)
  have step: "range_inv g a m (range_step g m s) \<and>
       card (U - closedHexes (range_step g m s)) < card (U - closedHexes s)"
    if A: "range_inv g a m s" and B: "openHeap s \<noteq> []" for s
  proof -
    obtain k where k: "k \<notin> closedHexes s" "k \<in> U"
        "closedHexes (range_step g m s) = insert k (closedHexes s)"
      using range_step_inv(2)[OF pos A B] unfolding U_def by blast
    have "U - insert k (closedHexes s) \<subset> U - closedHexes s" using k by auto
    then have "card (U - insert k (closedHexes s)) < card (U - closedHexes s)"
      using fin by (intro psubset_card_mono) auto
    then show ?thesis using range_step_inv(1)[OF pos A B] k(3) by simp
  qed
  obtain t where t: "while_option (\<lambda>s. openHeap s \<noteq> []) (range_step g m) (range_init a) = Some t"
    using measure_while_option_Some[where P = "range_inv g a m" and b = "\<lambda>s. openHeap s \<noteq> []"
        and c = "range_step g m" and f = "\<lambda>s. card (U - closedHexes s)" and s = "range_init a"]
      step range_init_inv by blast
  have "range_inv g a m t"
    using while_option_rule[where P = "range_inv g a m", OF _ t range_init_inv] step by blast
  moreover have "openHeap t = []" using while_option_stop[OF t] by simp
  ultimately show ?thesis using t by blast
qed


lemma is_path_snoc:
  "is_path g a (q @ [h]) = (is_path g a q \<and> h \<in> set (getNeighbors g (last (a # q))) \<and> \<not> blocked h)"
  by (induction q arbitrary: a) auto

lemma path_cost_snoc: "path_cost (q @ [h]) = path_cost q + cost h"
  by (simp add: path_cost_def)

lemma is_path_in_grid: "is_path g a p \<Longrightarrow> set p \<subseteq> set (hexes g)"
  by (induction p arbitrary: a) (auto dest: neighbor_in_grid)

lemma range_sound:
  assumes bn: "base_nodes g a m ns cl"
  shows "i < length ns \<Longrightarrow> 0 < i \<Longrightarrow>
     \<exists>p. p \<noteq> [] \<and> is_path g a p \<and> last p = hex (ns ! i) \<and> path_cost p = G (ns ! i)"
proof (induction i rule: less_induct)
  case (less i)
  have h0: "hex (ns ! 0) = a" and g0: "G (ns ! 0) = 0" using bn unfolding base_nodes_def by blast+
  obtain p where p: "p < i" "hex (ns ! i) \<in> set (getNeighbors g (hex (ns ! p)))"
      "\<not> blocked (hex (ns ! i))" "G (ns ! i) = G (ns ! p) + cost (hex (ns ! i))"
    using bn less(2,3) unfolding base_nodes_def by blast
  show ?case
  proof (cases "p = 0")
    case True
    have "is_path g a [hex (ns ! i)]" using p(2,3) True h0 by simp
    moreover have "path_cost [hex (ns ! i)] = G (ns ! i)" using p(4) True g0 by (simp add: path_cost_def)
    ultimately show ?thesis by (intro exI[of _ "[hex (ns ! i)]"]) simp
  next
    case False
    then obtain q where q: "q \<noteq> []" "is_path g a q" "last q = hex (ns ! p)" "path_cost q = G (ns ! p)"
      using less(1)[OF p(1)] p(1) less(2) by auto
    have "is_path g a (q @ [hex (ns ! i)])" using q p(2,3) by (simp add: is_path_snoc)
    moreover have "path_cost (q @ [hex (ns ! i)]) = G (ns ! i)" using q(4) p(4) by (simp add: path_cost_snoc)
    ultimately show ?thesis by (intro exI[of _ "q @ [hex (ns ! i)]"]) simp
  qed
qed

lemma range_complete:
  assumes pos: "\<forall>h\<in>set (hexes g). 0 \<le> cost h"
    and bn: "base_nodes g a m ns cl" and clo: "closure g m ns cl {}"
    and all: "\<forall>i<length ns. nkey ns i \<in> cl"
  shows "is_path g a q \<Longrightarrow> path_cost q \<le> m \<Longrightarrow>
     \<exists>j<length ns. nkey ns j = getKey (last (a # q)) \<and> G (ns ! j) \<le> path_cost q"
proof (induction q rule: rev_induct)
  case Nil
  have "ns \<noteq> []" "hex (ns ! 0) = a" "G (ns ! 0) = 0" using bn unfolding base_nodes_def by blast+
  then show ?case by (intro exI[of _ 0]) (simp add: nkey_def path_cost_def)
next
  case (snoc h q)
  have pq: "is_path g a q" and hn: "h \<in> set (getNeighbors g (last (a # q)))" and nb: "\<not> blocked h"
    using snoc(2) by (simp_all add: is_path_snoc)
  have "h \<in> set (hexes g)" using hn by (rule neighbor_in_grid)
  then have ch: "0 \<le> cost h" using pos by blast
  then have "path_cost q \<le> m" using snoc(3) by (simp add: path_cost_snoc)
  then obtain j where j: "j < length ns" "nkey ns j = getKey (last (a # q))" "G (ns ! j) \<le> path_cost q"
    using snoc(1)[OF pq] by blast
  have "getNeighbors g (hex (ns ! j)) = getNeighbors g (last (a # q))"
    using j(2) by (intro getNeighbors_key_cong) (simp add: nkey_def)
  then have "h \<in> set (getNeighbors g (hex (ns ! j)))" using hn by simp
  moreover have "nkey ns j \<in> cl" using all j(1) by blast
  ultimately have "closed_at m ns j h" using clo j(1) unfolding closure_def by blast
  moreover have "G (ns ! j) + cost h \<le> m" using j(3) snoc(3) by (simp add: path_cost_snoc)
  ultimately obtain j' where j': "j' < length ns" "nkey ns j' = getKey h" "G (ns ! j') \<le> G (ns ! j) + cost h"
    using nb unfolding closed_at_def by blast
  have "G (ns ! j') \<le> path_cost (q @ [h])" using j'(3) j(3) by (simp add: path_cost_snoc)
  then show ?case using j'(1,2) by (intro exI[of _ j']) simp
qed

lemma range_result_set:
  assumes pos: "\<forall>h\<in>set (hexes g). 0 \<le> cost h"
    and I: "range_inv g a m t" and e: "openHeap t = []"
  shows "set (map (\<lambda>(k, i). hex (nodes t ! i)) (visitedNodes t)) = within_budget g a m"
proof -
  define ns where "ns = nodes t"
  define cl where "cl = closedHexes t"
  have bn: "base_nodes g a m ns cl" and bh: "base_heap ns cl []"
    and bv: "base_visited ns (visitedNodes t)" and clo: "closure g m ns cl {}"
    using I e unfolding range_inv_def range_base_def ns_def cl_def by auto
  have all: "\<forall>i<length ns. nkey ns i \<in> cl" using bh unfolding base_heap_def by auto
  have ne: "ns \<noteq> []" and h0: "hex (ns ! 0) = a"
    and dk: "distinct (map (\<lambda>n. getKey (hex n)) ns)"
    and par: "\<And>i. i < length ns \<Longrightarrow> 0 < i \<Longrightarrow>
         (\<exists>p<i. hex (ns ! i) \<in> set (getNeighbors g (hex (ns ! p))) \<and> G (ns ! i) \<le> m)"
    using bn unfolding base_nodes_def by blast+
  have k0: "nkey ns 0 = getKey a" using h0 by (simp add: nkey_def)
  have "map (\<lambda>(k, i). hex (nodes t ! i)) (visitedNodes t) = map (\<lambda>i. hex (ns ! i)) [1..<length ns]"
    using bv unfolding base_visited_def by (simp add: ns_def comp_def)
  then have res: "set (map (\<lambda>(k, i). hex (nodes t ! i)) (visitedNodes t))
      = {hex (ns ! i) |i. 0 < i \<and> i < length ns}"
    by auto
  have "{hex (ns ! i) |i. 0 < i \<and> i < length ns} = within_budget g a m"
  proof (intro set_eqI iffI)
    fix h assume "h \<in> {hex (ns ! i) |i. 0 < i \<and> i < length ns}"
    then obtain i where i: "0 < i" "i < length ns" "h = hex (ns ! i)" by blast
    obtain p where p: "p \<noteq> []" "is_path g a p" "last p = hex (ns ! i)" "path_cost p = G (ns ! i)"
      using range_sound[OF bn i(2,1)] by blast
    have "G (ns ! i) \<le> m" using par[OF i(2,1)] by blast
    moreover have "nkey ns i \<noteq> nkey ns 0" using nkey_inj[OF dk i(2), of 0] i(1) ne by simp
    ultimately show "h \<in> within_budget g a m"
      unfolding within_budget_def using p i(3) k0 by (auto simp: nkey_def)
  next
    fix h assume "h \<in> within_budget g a m"
    then obtain p where p: "p \<noteq> []" "is_path g a p" "last p = h" "path_cost p \<le> m"
        "getKey h \<noteq> getKey a"
      unfolding within_budget_def by blast
    obtain j where j: "j < length ns" "nkey ns j = getKey (last (a # p))"
      using range_complete[OF pos bn clo all p(2,4)] by blast
    have kj: "nkey ns j = getKey h" using j(2) p(1,3) by simp
    then have j0: "0 < j" using p(5) k0 by (cases "j = 0") auto
    obtain pj where pj: "hex (ns ! j) \<in> set (getNeighbors g (hex (ns ! pj)))"
      using par[OF j(1) j0] by blast
    obtain q where q: "p = q @ [h]" using p(1,3) by (metis append_butlast_last_id)
    then have hq: "h \<in> set (getNeighbors g (last (a # q)))" using p(2) by (simp add: is_path_snoc)
    have "getKey (hex (ns ! j)) = getKey h" using kj by (simp add: nkey_def)
    then have "hex (ns ! j) = h" using neighbor_same_key[OF pj hq] by simp
    then show "h \<in> {hex (ns ! i) |i. 0 < i \<and> i < length ns}" using j(1) j0 by blast
  qed
  then show ?thesis using res by simp
qed

lemma getRange_set:
  assumes pos: "\<forall>h\<in>set (hexes g). 0 \<le> cost h"
  shows "\<exists>xs. getRange g a m = Some xs \<and> set xs = within_budget g a m"
proof -
  obtain t where t: "while_option (\<lambda>s. openHeap s \<noteq> []) (range_step g m) (range_init a) = Some t"
      "range_inv g a m t" "openHeap t = []"
    using range_loop_result[OF pos] by blast
  show ?thesis
    unfolding getRange_def t(1) using range_result_set[OF pos t(2,3)] by simp
qed

subsection \<open>Steps towards a cell inside the hexagon\<close>

lemma hexnorm_even: "\<exists>n. hexnorm dx dy = 2 * int n"
proof -
  have "even (hexnorm dx dy)" unfolding hexnorm_def by simp blast
  then obtain k where k: "hexnorm dx dy = 2 * k" by (elim evenE)
  have "0 \<le> hexnorm dx dy" unfolding hexnorm_def by simp
  then have "0 \<le> k" using k by simp
  then show ?thesis using k by (intro exI[of _ "nat k"]) simp
qed

lemma step_towards:
  assumes a: "in_region r ax ay" and h: "in_region r hx hy" and pos: "0 < hexnorm (hx - ax) (hy - ay)"
  shows "\<exists>ex ey. (ex, ey) \<in> {(1, 0), (1, - 1), (0, - 1), (- 1, 0), (- 1, 1), (0, 1)} \<and>
      in_region r (hx - ex) (hy - ey) \<and>
      hexnorm (hx - ex - ax) (hy - ey - ay) = hexnorm (hx - ax) (hy - ay) - 2"
proof -
  define X where "X = hx - ax"
  define Z where "Z = hy - ay"
  have ne: "X \<noteq> 0 \<or> Z \<noteq> 0" using pos unfolding hexnorm_def X_def Z_def by auto
  have A: "- r \<le> ax" "ax \<le> r" "- r \<le> ay" "ay \<le> r" "- r \<le> ax + ay" "ax + ay \<le> r"
    using a unfolding in_region_def by auto
  have H: "- r \<le> hx" "hx \<le> r" "- r \<le> hy" "hy \<le> r" "- r \<le> hx + hy" "hx + hy \<le> r"
    using h unfolding in_region_def by auto
  consider (xy) "0 < X" "0 < X + Z" | (xz) "0 < X" "Z < 0" | (yz) "X + Z < 0" "Z < 0"
    | (yx) "X < 0" "X + Z < 0" | (zx) "X < 0" "0 < Z" | (zy) "0 < X + Z" "0 < Z"
    using ne by linarith
  then show ?thesis
  proof cases
    case xy
    have "in_region r (hx - 1) (hy - 0)" unfolding in_region_def using A H xy X_def Z_def by auto
    moreover have "hexnorm (hx - 1 - ax) (hy - 0 - ay) = hexnorm (hx - ax) (hy - ay) - 2"
      unfolding hexnorm_def using xy X_def Z_def by auto
    ultimately show ?thesis by blast
  next
    case xz
    have "in_region r (hx - 1) (hy - (- 1))" unfolding in_region_def using A H xz X_def Z_def by auto
    moreover have "hexnorm (hx - 1 - ax) (hy - (- 1) - ay) = hexnorm (hx - ax) (hy - ay) - 2"
      unfolding hexnorm_def using xz X_def Z_def by auto
    ultimately show ?thesis by blast
  next
    case yz
    have "in_region r (hx - 0) (hy - (- 1))" unfolding in_region_def using A H yz X_def Z_def by auto
    moreover have "hexnorm (hx - 0 - ax) (hy - (- 1) - ay) = hexnorm (hx - ax) (hy - ay) - 2"
      unfolding hexnorm_def using yz X_def Z_def by auto
    ultimately show ?thesis by blast
  next
    case yx
    have "in_region r (hx - (- 1)) (hy - 0)" unfolding in_region_def using A H yx X_def Z_def by auto
    moreover have "hexnorm (hx - (- 1) - ax) (hy - 0 - ay) = hexnorm (hx - ax) (hy - ay) - 2"
      unfolding hexnorm_def using yx X_def Z_def by auto
    ultimately show ?thesis by blast
  next
    case zx
    have "in_region r (hx - (- 1)) (hy - 1)" unfolding in_region_def using A H zx X_def Z_def by auto
    moreover have "hexnorm (hx - (- 1) - ax) (hy - 1 - ay) = hexnorm (hx - ax) (hy - ay) - 2"
      unfolding hexnorm_def using zx X_def Z_def by auto
    ultimately show ?thesis by blast
  next
    case zy
    have "in_region r (hx - 0) (hy - 1)" unfolding in_region_def using A H zy X_def Z_def by auto
    moreover have "hexnorm (hx - 0 - ax) (hy - 1 - ay) = hexnorm (hx - ax) (hy - ay) - 2"
      unfolding hexnorm_def using zy X_def Z_def by auto
    ultimately show ?thesis by blast
  qed
qed

subsection \<open>The grid of radius r, and the cells within a budget on it\<close>

lemma cell_fields:
  "axial_x (cell x y) = of_int x" "axial_y (cell x y) = of_int y"
  "cost (cell x y) = 1" "blocked (cell x y) = False" "getKey (cell x y) = (of_int x, of_int y)"
  by (simp_all add: cell_def Hexagon_def getKey_def)

lemma cell_eq: "(cell x y = cell x' y') = (x = x' \<and> y = y')"
  by (auto simp: cell_def Hexagon_def)

lemma cell_key_eq: "(getKey (cell x y) = getKey (cell x' y')) = (x = x' \<and> y = y')"
  by (simp add: cell_fields)

lemma grid_cells:
  "(h \<in> set (hexes (Grid (of_int r)))) = (\<exists>x y. in_region r x y \<and> h = cell x y)"
proof -
  have "(h \<in> set (hexes (Grid (of_int r))))
      = (\<exists>x\<in>{- r..r}. \<exists>y\<in>{- r..r}. \<exists>z\<in>{- r..r}. x + y + z = 0 \<and> h = cell x y)"
    unfolding grid_hexes_int by (auto simp: cell_def split: if_splits)
  also have "\<dots> = (\<exists>x y. in_region r x y \<and> h = cell x y)"
  proof (intro iffI)
    assume "\<exists>x\<in>{- r..r}. \<exists>y\<in>{- r..r}. \<exists>z\<in>{- r..r}. x + y + z = 0 \<and> h = cell x y"
    then obtain x y z where "- r \<le> x" "x \<le> r" "- r \<le> y" "y \<le> r" "- r \<le> z" "z \<le> r"
        "x + y + z = 0" "h = cell x y"
      by auto
    moreover then have "in_region r x y" unfolding in_region_def by linarith
    ultimately show "\<exists>x y. in_region r x y \<and> h = cell x y" by blast
  next
    assume "\<exists>x y. in_region r x y \<and> h = cell x y"
    then obtain x y where xy: "in_region r x y" "h = cell x y" by blast
    then have "x \<in> {- r..r}" "y \<in> {- r..r}" "- x - y \<in> {- r..r}" "x + y + (- x - y) = 0"
      unfolding in_region_def by auto
    then show "\<exists>x\<in>{- r..r}. \<exists>y\<in>{- r..r}. \<exists>z\<in>{- r..r}. x + y + z = 0 \<and> h = cell x y"
      using xy(2) by blast
  qed
  finally show ?thesis .
qed

lemma grid_key_unique:
  assumes "h1 \<in> set (hexes (Grid (of_int r)))" "h2 \<in> set (hexes (Grid (of_int r)))"
    "getKey h1 = getKey h2"
  shows "h1 = h2"
proof -
  obtain x y x' y' where "h1 = cell x y" "h2 = cell x' y'" using assms(1,2) grid_cells by blast
  then show ?thesis using assms(3) by (simp add: cell_key_eq)
qed

lemma grid_getHexAt:
  "(getHexAt (Grid (of_int r)) d = Some h) = (h \<in> set (hexes (Grid (of_int r))) \<and> compareTo h d)"
proof
  assume "getHexAt (Grid (of_int r)) d = Some h"
  then show "h \<in> set (hexes (Grid (of_int r))) \<and> compareTo h d" using getHexAt_Some by blast
next
  assume h: "h \<in> set (hexes (Grid (of_int r))) \<and> compareTo h d"
  then have "getHexAt (Grid (of_int r)) d \<noteq> None" using getHexAt_None by blast
  then obtain h' where h': "getHexAt (Grid (of_int r)) d = Some h'" by blast
  then have "compareTo h' d" "h' \<in> set (hexes (Grid (of_int r)))" using getHexAt_Some by blast+
  moreover then have "getKey h' = getKey h" using h by (simp add: compareTo_def getKey_def)
  ultimately have "h' = h" using grid_key_unique h by blast
  then show "getHexAt (Grid (of_int r)) d = Some h" using h' by simp
qed

lemma grid_neighbors:
  "(h \<in> set (getNeighbors (Grid (of_int r)) a))
     = (h \<in> set (hexes (Grid (of_int r))) \<and> (\<exists>d\<in>set (directions a). compareTo h d))"
  unfolding in_getNeighbors grid_getHexAt by blast

lemma cell_neighbor:
  assumes "in_region r hx hy"
    and "(ex, ey) \<in> {(1, 0), (1, - 1), (0, - 1), (- 1, 0), (- 1, 1), (0, 1 :: int)}"
  shows "cell hx hy \<in> set (getNeighbors (Grid (of_int r)) (cell (hx - ex) (hy - ey)))"
proof -
  have "cell hx hy \<in> set (hexes (Grid (of_int r)))" using assms(1) grid_cells by blast
  moreover have "\<exists>d\<in>set (directions (cell (hx - ex) (hy - ey))). compareTo (cell hx hy) d"
    using assms(2) by (auto simp: directions_def compareTo_def cell_fields Axial_def)
  ultimately show ?thesis unfolding grid_neighbors by blast
qed

lemma cell_distance:
  "getDistance (cell ax ay) (cell hx hy) = of_int (hexnorm (hx - ax) (hy - ay)) / 2"
proof -
  have "\<bar>rat_of_int ax - of_int hx\<bar> = of_int \<bar>hx - ax\<bar>"
    "\<bar>rat_of_int ax + of_int ay - of_int hx - of_int hy\<bar> = of_int \<bar>hx - ax + (hy - ay)\<bar>"
    "\<bar>rat_of_int ay - of_int hy\<bar> = of_int \<bar>hy - ay\<bar>"
    by (simp_all add: abs_minus_commute algebra_simps flip: of_int_diff of_int_add of_int_abs)
  then show ?thesis by (simp add: getDistance_def cell_fields hexnorm_def)
qed

lemma path_distance:
  assumes c1: "\<forall>h\<in>set (hexes g). 1 \<le> cost h"
  shows "is_path g a p \<Longrightarrow> getDistance a (last (a # p)) \<le> path_cost p"
proof (induction p rule: rev_induct)
  case Nil
  have "getDistance a a = 0" using getDistance_zero[of a a] by simp
  then show ?case by (simp add: path_cost_def)
next
  case (snoc h q)
  have pq: "is_path g a q" and hn: "h \<in> set (getNeighbors g (last (a # q)))"
    using snoc(2) by (simp_all add: is_path_snoc)
  have "1 \<le> cost h" using c1 neighbor_in_grid[OF hn] by blast
  moreover have "getDistance (last (a # q)) h = 1" using hn by (rule getNeighbors_distance)
  moreover have "getDistance a h \<le> getDistance a (last (a # q)) + getDistance (last (a # q)) h"
    by (rule getDistance_triangle)
  ultimately have "getDistance a h \<le> path_cost q + cost h" using snoc(1)[OF pq] by simp
  then show ?case by (simp add: path_cost_snoc)
qed

lemma grid_path_exists:
  assumes a: "in_region r ax ay"
  shows "in_region r hx hy \<Longrightarrow> hexnorm (hx - ax) (hy - ay) = 2 * int n \<Longrightarrow> 0 < n \<Longrightarrow>
     \<exists>p. p \<noteq> [] \<and> is_path (Grid (of_int r)) (cell ax ay) p \<and> last p = cell hx hy \<and>
         path_cost p = of_nat n"
proof (induction n arbitrary: hx hy)
  case 0
  then show ?case by simp
next
  case (Suc n)
  have "0 < hexnorm (hx - ax) (hy - ay)" using Suc(3) by simp
  from step_towards[OF a Suc(2) this]
  obtain ex ey where e: "(ex, ey) \<in> {(1, 0), (1, - 1), (0, - 1), (- 1, 0), (- 1, 1), (0, 1)}"
      "in_region r (hx - ex) (hy - ey)"
      "hexnorm (hx - ex - ax) (hy - ey - ay) = hexnorm (hx - ax) (hy - ay) - 2"
    by blast
  have nb: "cell hx hy \<in> set (getNeighbors (Grid (of_int r)) (cell (hx - ex) (hy - ey)))"
    using cell_neighbor[OF Suc(2) e(1)] .
  have nrm: "hexnorm (hx - ex - ax) (hy - ey - ay) = 2 * int n" using e(3) Suc(3) by simp
  show ?case
  proof (cases "n = 0")
    case True
    then have "hexnorm (hx - ex - ax) (hy - ey - ay) = 0" using nrm by simp
    then have "hx - ex = ax" "hy - ey = ay" unfolding hexnorm_def by linarith+
    then have "is_path (Grid (of_int r)) (cell ax ay) [cell hx hy]" using nb by (simp add: cell_fields)
    moreover have "path_cost [cell hx hy] = of_nat (Suc n)" using True by (simp add: path_cost_def cell_fields)
    ultimately show ?thesis by (intro exI[of _ "[cell hx hy]"]) simp
  next
    case False
    then obtain q where q: "q \<noteq> []" "is_path (Grid (of_int r)) (cell ax ay) q"
        "last q = cell (hx - ex) (hy - ey)" "path_cost q = of_nat n"
      using Suc(1)[OF e(2) nrm] by auto
    have "is_path (Grid (of_int r)) (cell ax ay) (q @ [cell hx hy])"
      using q nb by (simp add: is_path_snoc cell_fields)
    moreover have "path_cost (q @ [cell hx hy]) = of_nat (Suc n)"
      using q(4) by (simp add: path_cost_snoc cell_fields)
    ultimately show ?thesis by (intro exI[of _ "q @ [cell hx hy]"]) simp
  qed
qed

lemma grid_costs: "h \<in> set (hexes (Grid (of_int r))) \<Longrightarrow> cost h = 1 \<and> \<not> blocked h"
  using grid_cells[of h r] by (auto simp: cell_fields)

lemma grid_within_budget:
  assumes a: "a \<in> set (hexes (Grid (of_int r)))"
  shows "within_budget (Grid (of_int r)) a m
     = {h \<in> set (hexes (Grid (of_int r))). h \<noteq> a \<and> getDistance a h \<le> m}"
proof (intro set_eqI iffI)
  fix h assume "h \<in> within_budget (Grid (of_int r)) a m"
  then obtain p where p: "p \<noteq> []" "is_path (Grid (of_int r)) a p" "last p = h" "path_cost p \<le> m"
      "getKey h \<noteq> getKey a"
    unfolding within_budget_def by blast
  have "h \<in> set p" using p(1,3) by auto
  then have 1: "h \<in> set (hexes (Grid (of_int r)))" using is_path_in_grid[OF p(2)] by blast
  have 2: "h \<noteq> a" using p(5) by auto
  have "\<forall>h\<in>set (hexes (Grid (of_int r))). 1 \<le> cost h" using grid_costs by simp
  then have "getDistance a (last (a # p)) \<le> path_cost p" using p(2) by (rule path_distance)
  then have 3: "getDistance a h \<le> m" using p(1,3,4) by simp
  show "h \<in> {h \<in> set (hexes (Grid (of_int r))). h \<noteq> a \<and> getDistance a h \<le> m}"
    using 1 2 3 by simp
next
  fix h assume "h \<in> {h \<in> set (hexes (Grid (of_int r))). h \<noteq> a \<and> getDistance a h \<le> m}"
  then have h: "h \<in> set (hexes (Grid (of_int r)))" "h \<noteq> a" "getDistance a h \<le> m" by simp_all
  obtain ax ay where A: "in_region r ax ay" "a = cell ax ay" using a grid_cells by blast
  obtain hx hy where H: "in_region r hx hy" "h = cell hx hy" using h(1) grid_cells by blast
  obtain n where n: "hexnorm (hx - ax) (hy - ay) = 2 * int n" using hexnorm_even by blast
  have ne: "hx \<noteq> ax \<or> hy \<noteq> ay" using h(2) A(2) H(2) by auto
  then have "hexnorm (hx - ax) (hy - ay) \<noteq> 0" unfolding hexnorm_def by linarith
  then have n0: "0 < n" using n by (cases n) simp_all
  obtain p where p: "p \<noteq> []" "is_path (Grid (of_int r)) (cell ax ay) p" "last p = cell hx hy"
      "path_cost p = of_nat n"
    using grid_path_exists[OF A(1) H(1) n n0] by blast
  have "getDistance a h = of_nat n" unfolding A(2) H(2) cell_distance n by simp
  then have "path_cost p \<le> m" using p(4) h(3) by simp
  moreover have "getKey h \<noteq> getKey a" unfolding A(2) H(2) using ne by (simp add: cell_key_eq)
  ultimately show "h \<in> within_budget (Grid (of_int r)) a m"
    unfolding within_budget_def using p(1,2,3) A(2) H(2) by blast
qed


lemma path_cost_pos:
  assumes "\<forall>h\<in>set (hexes g). 0 < cost h"
  shows "is_path g a p \<Longrightarrow> p \<noteq> [] \<Longrightarrow> 0 < path_cost p"
proof (induction p rule: rev_induct)
  case Nil
  then show ?case by simp
next
  case (snoc h q)
  have pq: "is_path g a q" and hn: "h \<in> set (getNeighbors g (last (a # q)))"
    using snoc(2) by (simp_all add: is_path_snoc)
  have ch: "0 < cost h" using assms neighbor_in_grid[OF hn] by blast
  show ?case
  proof (cases "q = []")
    case True
    then show ?thesis using ch by (simp add: path_cost_def)
  next
    case False
    then have "0 < path_cost q" using snoc(1)[OF pq] by simp
    then show ?thesis using ch by (simp add: path_cost_snoc)
  qed
qed

lemma within_budget_zero:
  assumes "\<forall>h\<in>set (hexes g). 0 < cost h"
  shows "within_budget g a 0 = {}"
proof -
  have "\<not> path_cost p \<le> 0" if "is_path g a p" "p \<noteq> []" for p
    using path_cost_pos[OF assms that] by simp
  then show ?thesis unfolding within_budget_def by blast
qed

lemma within_budget_mono: "m \<le> m' \<Longrightarrow> within_budget g a m \<subseteq> within_budget g a m'"
  unfolding within_budget_def by force

lemma within_budget_not_start: "h \<in> within_budget g a m \<Longrightarrow> \<not> compareTo h a"
  unfolding within_budget_def by (auto simp: compareTo_def getKey_def)

text \<open>
  Claim C7. On a grid whose cells all have a positive cost (the data model asks for cost
  at least 1), for every start and budgets m \<le> m': getRange returns; with budget 0 it
  returns nothing; no returned cell has the coordinates of the start; the cells returned
  for m are among those returned for m'. On the grid of radius r as constructed (every
  cost 1, nothing blocked), from a cell c of the grid, getRange returns exactly the cells
  of the grid other than c at distance at most m from c.
\<close>

theorem getRange_properties:
  assumes costs: "\<forall>h\<in>set (hexes g). 0 < cost h" and le: "m \<le> m'"
    and cell: "c \<in> set (hexes (Grid (of_int r)))"
  shows "getRange g a 0 = Some [] \<and>
    (\<exists>xs ys. getRange g a m = Some xs \<and> getRange g a m' = Some ys \<and>
       (\<forall>h\<in>set xs. \<not> compareTo h a) \<and> set xs \<subseteq> set ys) \<and>
    (\<exists>zs. getRange (Grid (of_int r)) c m = Some zs \<and>
       set zs = {h \<in> set (hexes (Grid (of_int r))). h \<noteq> c \<and> getDistance c h \<le> m})"
proof -
  have pos: "\<forall>h\<in>set (hexes g). 0 \<le> cost h" using costs by (meson less_imp_le)
  obtain x0 where x0: "getRange g a 0 = Some x0" "set x0 = within_budget g a 0"
    using getRange_set[OF pos] by blast
  have 1: "getRange g a 0 = Some []" using x0 within_budget_zero[OF costs] by simp
  obtain xs where xs: "getRange g a m = Some xs" "set xs = within_budget g a m"
    using getRange_set[OF pos] by blast
  obtain ys where ys: "getRange g a m' = Some ys" "set ys = within_budget g a m'"
    using getRange_set[OF pos] by blast
  have "\<forall>h\<in>set xs. \<not> compareTo h a" using xs(2) within_budget_not_start by blast
  moreover have "set xs \<subseteq> set ys" using xs(2) ys(2) within_budget_mono[OF le] by simp
  ultimately have 2: "\<exists>xs ys. getRange g a m = Some xs \<and> getRange g a m' = Some ys \<and>
       (\<forall>h\<in>set xs. \<not> compareTo h a) \<and> set xs \<subseteq> set ys"
    using xs(1) ys(1) by blast
  have "\<forall>h\<in>set (hexes (Grid (of_int r))). 0 \<le> cost h" using grid_costs by simp
  then obtain zs where zs: "getRange (Grid (of_int r)) c m = Some zs"
      "set zs = within_budget (Grid (of_int r)) c m"
    using getRange_set by blast
  then have 3: "\<exists>zs. getRange (Grid (of_int r)) c m = Some zs \<and>
       set zs = {h \<in> set (hexes (Grid (of_int r))). h \<noteq> c \<and> getDistance c h \<le> m}"
    using grid_within_budget[OF cell] by simp
  show ?thesis using 1 2 3 by blast
qed


theorem getRange_properties_witness:
  "list_all (\<lambda>h. 0 < cost h) (hexes (Grid 1)) \<and> (1 :: number) \<le> 2
   \<and> Hexagon 0 0 None Undefined \<in> set (hexes (Grid 1))
   \<and> getRange (Grid 1) (Hexagon 0 0 None Undefined) 0 = Some []
   \<and> (\<exists>xs ys. getRange (Grid 1) (Hexagon 0 0 None Undefined) 1 = Some xs
         \<and> getRange (Grid 1) (Hexagon 0 0 None Undefined) 2 = Some ys
         \<and> list_all (\<lambda>h. \<not> compareTo h (Hexagon 0 0 None Undefined)) xs \<and> set xs \<subseteq> set ys)
   \<and> (\<exists>zs. getRange (Grid 1) (Hexagon 0 0 None Undefined) 1 = Some zs
         \<and> set zs = {h \<in> set (hexes (Grid 1)).
               h \<noteq> Hexagon 0 0 None Undefined \<and> getDistance (Hexagon 0 0 None Undefined) h \<le> 1})"
proof -
  have c: "list_all (\<lambda>h. 0 < cost h) (hexes (Grid 1))" by code_simp
  have m: "Hexagon 0 0 None Undefined \<in> set (hexes (Grid 1))" by code_simp
  have c': "\<forall>h\<in>set (hexes (Grid 1)). 0 < cost h" using c by (simp add: list_all_iff)
  have m': "Hexagon 0 0 None Undefined \<in> set (hexes (Grid (of_int 1)))" using m by simp
  show ?thesis
    using getRange_properties [OF c' _ m', of 1 2 "Hexagon 0 0 None Undefined"] c m
    by (simp add: list_all_iff)
qed

subsection \<open>findPath on examples\<close>

text \<open>
  In findPath no step writes visitedNodes: it is empty from the start to the end of a
  search, so the lookup of a neighbour there never finds a node.
\<close>

lemma path_neighbor_visitedNodes: "visitedNodes (path_neighbor e c n s) = visitedNodes s"
  by (simp add: path_neighbor_def Let_def split: option.splits)

lemma path_fold_visitedNodes: "visitedNodes (fold (path_neighbor e c) ns s) = visitedNodes s"
  by (induction ns arbitrary: s) (simp_all add: path_neighbor_visitedNodes)

lemma path_step_visitedNodes: "visitedNodes (fst (path_step g e st)) = visitedNodes (fst st)"
  by (simp add: path_step_def Let_def path_fold_visitedNodes split: option.splits prod.splits)

text \<open>
  Claim C3, as amended. On the grid of radius 2, all costs 1 and nothing blocked, the
  distance from (-2,1) to (2,-1) is 4, and findPath returns a path of 4 cells (the start
  not among them) of total cost 4 that ends at (2,-1).
\<close>

theorem findPath_radius2_example:
  "getDistance (Axial (- 2) 1) (Axial 2 (- 1)) = 4
   \<and> map_option (map getKey) (findPath (Grid 2) (Hexagon (- 2) 1 None Undefined) (Axial 2 (- 1)))
       = Some [(- 1, 1), (0, 1), (1, 0), (2, - 1)]
   \<and> map_option length (findPath (Grid 2) (Hexagon (- 2) 1 None Undefined) (Axial 2 (- 1)))
       = Some 4
   \<and> map_option path_cost (findPath (Grid 2) (Hexagon (- 2) 1 None Undefined) (Axial 2 (- 1)))
       = Some 4"
  by code_simp

text \<open>Against claim C3 as stated: the distance is not 3, nor is the length of the path.\<close>

theorem findPath_radius2_not_three:
  "getDistance (Axial (- 2) 1) (Axial 2 (- 1)) \<noteq> 3
   \<and> map_option length (findPath (Grid 2) (Hexagon (- 2) 1 None Undefined) (Axial 2 (- 1)))
       \<noteq> Some 3"
  by code_simp

text \<open>
  Claim C1 fails on the code. On the grid with a detour, from (-1,0) to (2,0): after two
  turns of the loop the heap holds the nodes 2, of (0,-1), and 3, of (1,-1), which was
  reached through the centre at G = 5/2. The third turn pops node 2, with G = 1; the
  cell (1,-1) is its neighbour, is not blocked and has not been popped, and the way
  through node 2 would give it G = 2. The turn leaves every node as it was; no node is
  ever entered in visitedNodes.
\<close>

theorem findPath_never_rescores_example:
  "(let e = Axial 2 0;
        s2 = fst ((path_step detour_grid e ^^ 2) (path_init (Hexagon (- 1) 0 None Undefined) e, None));
        s3 = fst ((path_step detour_grid e ^^ 3) (path_init (Hexagon (- 1) 0 None Undefined) e, None))
    in openHeap s2 = [2, 3]
       \<and> map_option fst (heap_pop (score (nodes s2)) (openHeap s2)) = Some 2
       \<and> getKey (hex (nodes s2 ! 2)) = (0, - 1) \<and> getKey (hex (nodes s2 ! 3)) = (1, - 1)
       \<and> hex (nodes s2 ! 3) \<in> set (getNeighbors detour_grid (hex (nodes s2 ! 2)))
       \<and> \<not> blocked (hex (nodes s2 ! 3))
       \<and> G (nodes s2 ! 2) + cost (hex (nodes s2 ! 3)) = 2
       \<and> G (nodes s2 ! 3) = 5 / 2 \<and> parent (nodes s2 ! 3) = Some 1
       \<and> visitedNodes s2 = []
       \<and> nodes s3 = nodes s2 \<and> openHeap s3 = [3] \<and> visitedNodes s3 = [])"
  by code_simp

text \<open>
  Claim C2 fails on the code. On the same grid, where every cost is at least 1,
  findPath from (-1,0) to (2,0) returns the path through the centre, of cost 9/2, while
  the path through (0,-1) costs 4.
\<close>

theorem findPath_not_cheapest_example:
  "(let g = detour_grid; a = Hexagon (- 1) 0 None Undefined;
        q = [Hexagon 0 (- 1) None Undefined, Hexagon 1 (- 1) None Undefined,
             Hexagon 2 (- 1) None Undefined, Hexagon 2 0 None Undefined]
    in list_all (\<lambda>h. 1 \<le> cost h) (hexes g)
       \<and> map_option (map getKey) (findPath g a (Axial 2 0))
           = Some [(0, 0), (1, - 1), (2, - 1), (2, 0)]
       \<and> map_option (is_path g a) (findPath g a (Axial 2 0)) = Some True
       \<and> map_option path_cost (findPath g a (Axial 2 0)) = Some (9 / 2)
       \<and> is_path g a q \<and> compareTo (last q) (Axial 2 0) \<and> path_cost q = 4)"
  by code_simp

end
